theory Spec2Isabelle
  imports Complex_Main "HOL-Library.AList"
begin

section \<open>Strings\<close>

text \<open>
  A Python \<open>str\<close> is a sequence of Unicode code points, so a string is modelled as a
  list of code points (natural numbers). \<open>py_str\<close> embeds an ASCII literal.
\<close>

type_synonym ustr = "nat list"

definition py_str :: "string \<Rightarrow> ustr" where
  "py_str s = map of_char s"

text \<open>
  The characters \<open>str.isspace\<close>, \<open>str.strip()\<close> and the \<open>\s\<close> of the standard
  \<open>re\<close> module (used by \<open>utils.py\<close>) treat as whitespace.
\<close>

definition py_isspace :: "nat \<Rightarrow> bool" where
  "py_isspace c =
     ((9 \<le> c \<and> c \<le> 13) \<or> (28 \<le> c \<and> c \<le> 32) \<or> c = 133 \<or> c = 160 \<or> c = 5760
      \<or> (8192 \<le> c \<and> c \<le> 8202) \<or> c = 8232 \<or> c = 8233 \<or> c = 8239 \<or> c = 8287
      \<or> c = 12288)"

text \<open>
  The \<open>\s\<close> of the third-party \<open>regex\<close> module (used by \<open>clean.py\<close> and
  \<open>segment.py\<close>): the Unicode property White_Space, which leaves out the four
  separators U+001C..U+001F.
\<close>

definition rx_isspace :: "nat \<Rightarrow> bool" where
  "rx_isspace c =
     ((9 \<le> c \<and> c \<le> 13) \<or> c = 32 \<or> c = 133 \<or> c = 160 \<or> c = 5760
      \<or> (8192 \<le> c \<and> c \<le> 8202) \<or> c = 8232 \<or> c = 8233 \<or> c = 8239 \<or> c = 8287
      \<or> c = 12288)"

text \<open>The classes \<open>[A-Za-z]\<close> and \<open>[A-Za-z0-9]\<close>.\<close>

definition ascii_letter :: "nat \<Rightarrow> bool" where
  "ascii_letter c = ((65 \<le> c \<and> c \<le> 90) \<or> (97 \<le> c \<and> c \<le> 122))"

definition ascii_alnum :: "nat \<Rightarrow> bool" where
  "ascii_alnum c = (ascii_letter c \<or> (48 \<le> c \<and> c \<le> 57))"

text \<open>\<open>str.strip()\<close> with no argument.\<close>

definition py_strip :: "ustr \<Rightarrow> ustr" where
  "py_strip s = rev (dropWhile py_isspace (rev (dropWhile py_isspace s)))"

subsection \<open>Regular expressions\<close>

text \<open>
  A pattern is modelled by its backtracking matcher: applied to a string, it returns the
  remainders left by every way of matching a prefix, in the order in which the engine
  tries them (so the head of the list is the match the engine reports). The character
  tables of Unicode that the patterns consult and that are no part of the repository
  (the decimal digits of \<open>\d\<close>, the word characters of \<open>\b\<close>) are parameters, written
  \<open>dig\<close> and \<open>wordc\<close>.
\<close>

type_synonym rx = "ustr \<Rightarrow> ustr list"

definition rx_class :: "(nat \<Rightarrow> bool) \<Rightarrow> rx" where
  "rx_class P s = (case s of [] \<Rightarrow> [] | c # cs \<Rightarrow> if P c then [cs] else [])"

definition rx_lit :: "nat \<Rightarrow> rx" where
  "rx_lit c = rx_class (\<lambda>d. d = c)"

definition rx_seq :: "rx \<Rightarrow> rx \<Rightarrow> rx" where
  "rx_seq r1 r2 s = concat (map r2 (r1 s))"

definition rx_alt :: "rx \<Rightarrow> rx \<Rightarrow> rx" where
  "rx_alt r1 r2 s = r1 s @ r2 s"

definition rx_opt :: "rx \<Rightarrow> rx" where
  "rx_opt r s = r s @ [s]"

text \<open>
  Greedy repetition of a character class, at least \<open>lo\<close> and at most \<open>hi\<close> times
  (\<open>None\<close>: unbounded), the longest repetition first.
\<close>

definition rx_rep :: "(nat \<Rightarrow> bool) \<Rightarrow> nat \<Rightarrow> nat option \<Rightarrow> rx" where
  "rx_rep P lo hi s =
     (let k = length (takeWhile P s);
          m = (case hi of None \<Rightarrow> k | Some h \<Rightarrow> min h k)
      in map (\<lambda>n. drop n s) (rev [lo..<Suc m]))"

definition rx_plus :: "(nat \<Rightarrow> bool) \<Rightarrow> rx" where
  "rx_plus P = rx_rep P 1 None"

definition rx_star :: "(nat \<Rightarrow> bool) \<Rightarrow> rx" where
  "rx_star P = rx_rep P 0 None"

text \<open>\<open>$\<close> without the MULTILINE flag: the end of the string, or just before a final line break.\<close>

definition rx_eos :: rx where
  "rx_eos s = (if s = [] \<or> s = [10] then [s] else [])"

text \<open>An ASCII letter under the IGNORECASE flag; \<open>l\<close> is the lower-case code point.\<close>

definition rx_ci :: "nat \<Rightarrow> rx" where
  "rx_ci l = rx_class (\<lambda>c. c = l \<or> c + 32 = l)"

definition re_fullmatch :: "rx \<Rightarrow> ustr \<Rightarrow> bool" where
  "re_fullmatch r s = ([] \<in> set (r s))"

definition re_match :: "rx \<Rightarrow> ustr \<Rightarrow> bool" where
  "re_match r s = (r s \<noteq> [])"

definition re_search :: "rx \<Rightarrow> ustr \<Rightarrow> bool" where
  "re_search r s = list_ex (\<lambda>i. r (drop i s) \<noteq> []) [0..<Suc (length s)]"

text \<open>
  \<open>re.sub(pattern, rep, s)\<close> for a constant replacement: left to right, the first match
  at the leftmost position that has one is replaced and the scan resumes after it. Every
  pattern of this program consumes at least one character; the guard on the remainder's
  length (which such a pattern always passes) makes the recursion well-founded.
\<close>

function re_sub :: "rx \<Rightarrow> ustr \<Rightarrow> ustr \<Rightarrow> ustr" where
  "re_sub r rep [] = []"
| "re_sub r rep (c # cs) =
     (case r (c # cs) of
        [] \<Rightarrow> c # re_sub r rep cs
      | rem # _ \<Rightarrow>
          if length rem \<le> length cs then rep @ re_sub r rep rem
          else c # re_sub r rep cs)"
  by pat_completeness auto
termination
  by (relation "measure (\<lambda>(r, rep, s). length s)") auto

text \<open>\<open>str.split("\n")\<close> and \<open>sep.join(parts)\<close>.\<close>

fun split_nl :: "ustr \<Rightarrow> ustr list" where
  "split_nl [] = [[]]"
| "split_nl (c # cs) =
     (if c = 10 then [] # split_nl cs
      else (case split_nl cs of l # ls \<Rightarrow> (c # l) # ls | [] \<Rightarrow> [[c]]))"

fun join :: "ustr \<Rightarrow> ustr list \<Rightarrow> ustr" where
  "join sep [] = []"
| "join sep [x] = x"
| "join sep (x # y # ys) = x @ sep @ join sep (y # ys)"

section \<open>utils.py\<close>

text \<open>\<open>re.sub(r"\s+", " ", text or "").strip()\<close>\<close>

definition normalize_line :: "ustr \<Rightarrow> ustr" where
  "normalize_line text = py_strip (re_sub (rx_plus py_isspace) [32] text)"

text \<open>The two patterns of \<open>is_page_number\<close>: \<open>\d{1,4}\<close> and \<open>(?i)page\s+\d+(\s*/\s*\d+)?\<close>.\<close>

definition rx_short_number :: "(nat \<Rightarrow> bool) \<Rightarrow> rx" where
  "rx_short_number dig = rx_rep dig 1 (Some 4)"

definition rx_page_of :: "(nat \<Rightarrow> bool) \<Rightarrow> rx" where
  "rx_page_of dig =
     rx_seq (rx_ci 112) (rx_seq (rx_ci 97) (rx_seq (rx_ci 103) (rx_seq (rx_ci 101)
       (rx_seq (rx_plus py_isspace) (rx_seq (rx_plus dig)
         (rx_opt (rx_seq (rx_star py_isspace) (rx_seq (rx_lit 47)
            (rx_seq (rx_star py_isspace) (rx_plus dig))))))))))"

definition is_page_number :: "(nat \<Rightarrow> bool) \<Rightarrow> ustr \<Rightarrow> bool" where
  "is_page_number dig text =
     (let stripped = normalize_line text
      in if stripped = [] then False
         else if re_fullmatch (rx_short_number dig) stripped then True
         else if re_fullmatch (rx_page_of dig) stripped then True
         else False)"

text \<open>The ASCII digits, one instance of the digit table.\<close>

definition ascii_digit :: "nat \<Rightarrow> bool" where
  "ascii_digit c = (48 \<le> c \<and> c \<le> 57)"

text \<open>
  The normal form \<open>normalize_line\<close> produces: every whitespace character is a single
  space standing before a character that is not whitespace. \<open>collapse_ws\<close> names the
  substitution step of \<open>normalize_line\<close>.
\<close>

fun ws_single :: "ustr \<Rightarrow> bool" where
  "ws_single [] = True"
| "ws_single [c] = (if py_isspace c then c = 32 else True)"
| "ws_single (a # b # r) = ((if py_isspace a then a = 32 \<and> \<not> py_isspace b else True) \<and> ws_single (b # r))"

definition collapse_ws :: "ustr \<Rightarrow> ustr" where
  "collapse_ws s = re_sub (rx_plus py_isspace) [32] s"

text \<open>
  The shapes of a page-number line in the specification's words, on a whitespace-normalized
  line: a decimal integer of one to four digits; or the word "page" in any letter case, a
  space and a decimal integer; or that followed by a slash, with or without a space on
  either side, and a second decimal integer.
\<close>

definition ascii_lower :: "nat \<Rightarrow> nat" where
  "ascii_lower c = (if 65 \<le> c \<and> c \<le> 90 then c + 32 else c)"

definition says_page :: "ustr \<Rightarrow> bool" where
  "says_page p = (map ascii_lower p = py_str ''page'')"

definition page_number_shape :: "(nat \<Rightarrow> bool) \<Rightarrow> ustr \<Rightarrow> bool" where
  "page_number_shape dig t =
     ((1 \<le> length t \<and> length t \<le> 4 \<and> list_all dig t)
      \<or> (\<exists>p n. t = p @ [32] @ n \<and> says_page p \<and> n \<noteq> [] \<and> list_all dig n)
      \<or> (\<exists>p n s1 s2 m. t = p @ [32] @ n @ s1 @ [47] @ s2 @ m \<and> says_page p
            \<and> n \<noteq> [] \<and> list_all dig n \<and> (s1 = [] \<or> s1 = [32]) \<and> (s2 = [] \<or> s2 = [32])
            \<and> m \<noteq> [] \<and> list_all dig m))"

section \<open>clean.py\<close>

subsection \<open>dehyphenate_text\<close>





subsection \<open>merge_lines_into_paragraphs\<close>

text \<open>
  \<open>_ends_sentence\<close>: \<open>re.search(r"[...]\s*$", line)\<close>, the class holding the ideographic
  full stop U+3002, the fullwidth exclamation and question marks U+FF01 and U+FF1F, and
  the ASCII full stop, exclamation mark and question mark.
\<close>

definition sentence_end :: "nat \<Rightarrow> bool" where
  "sentence_end c = (c = 12290 \<or> c = 65281 \<or> c = 65311 \<or> c = 46 \<or> c = 33 \<or> c = 63)"

definition ends_sentence :: "ustr \<Rightarrow> bool" where
  "ends_sentence line =
     re_search (rx_seq (rx_class sentence_end) (rx_seq (rx_star rx_isspace) rx_eos)) line"

text \<open>
  \<open>_is_list_item\<close>: \<open>re.match(r"^([\-*\<bullet>]|\d+\.|\d+\)|[a-zA-Z]\))\s+", text)\<close>, the bullet
  being U+2022.
\<close>

definition bullet :: "nat \<Rightarrow> bool" where
  "bullet c = (c = 45 \<or> c = 42 \<or> c = 8226)"

definition rx_list_item :: "(nat \<Rightarrow> bool) \<Rightarrow> rx" where
  "rx_list_item dig =
     rx_seq (rx_alt (rx_class bullet)
            (rx_alt (rx_seq (rx_plus dig) (rx_lit 46))
            (rx_alt (rx_seq (rx_plus dig) (rx_lit 41))
                    (rx_seq (rx_class ascii_letter) (rx_lit 41)))))
       (rx_plus rx_isspace)"

definition is_list_item :: "(nat \<Rightarrow> bool) \<Rightarrow> ustr \<Rightarrow> bool" where
  "is_list_item dig text = re_match (rx_list_item dig) text"

text \<open>
  The statement \<open>if buffer: paragraphs.append(" ".join(buffer).strip())\<close>, which the loop
  runs at each flush (the buffer is emptied by the caller).
\<close>

definition flush :: "ustr list \<Rightarrow> ustr list \<Rightarrow> ustr list" where
  "flush paragraphs buffer =
     (if buffer \<noteq> [] then paragraphs @ [py_strip (join [32] buffer)] else paragraphs)"

text \<open>
  The loop of \<open>merge_lines_into_paragraphs\<close> over the lines, as a function of the two
  variables \<open>paragraphs\<close> and \<open>buffer\<close>.
\<close>

fun merge_loop :: "(nat \<Rightarrow> bool) \<Rightarrow> ustr list \<Rightarrow> ustr list \<Rightarrow> ustr list \<Rightarrow> ustr list \<times> ustr list" where
  "merge_loop dig paragraphs buffer [] = (paragraphs, buffer)"
| "merge_loop dig paragraphs buffer (line # lines) =
     (let stripped = py_strip line in
      if stripped = [] then merge_loop dig (flush paragraphs buffer) [] lines
      else if is_list_item dig stripped
        then merge_loop dig (flush paragraphs buffer @ [stripped]) [] lines
      else if buffer \<noteq> [] \<and> ends_sentence (last buffer)
        then merge_loop dig (paragraphs @ [py_strip (join [32] buffer)]) [stripped] lines
      else merge_loop dig paragraphs (buffer @ [stripped]) lines)"

definition merge_lines_into_paragraphs :: "(nat \<Rightarrow> bool) \<Rightarrow> ustr list \<Rightarrow> ustr list" where
  "merge_lines_into_paragraphs dig lines =
     (case merge_loop dig [] [] lines of
        (paragraphs, buffer) \<Rightarrow> filter (\<lambda>p. p \<noteq> []) (flush paragraphs buffer))"

text \<open>
  A stripped, non-empty line: it neither starts nor ends with whitespace. \<open>merge_out\<close> is
  the loop followed by the last flush, before empty paragraphs are filtered out.
\<close>

definition tight :: "ustr \<Rightarrow> bool" where
  "tight b = (b \<noteq> [] \<and> \<not> py_isspace (hd b) \<and> \<not> py_isspace (last b))"

definition merge_out :: "(nat \<Rightarrow> bool) \<Rightarrow> ustr list \<Rightarrow> ustr list \<Rightarrow> ustr list \<Rightarrow> ustr list" where
  "merge_out dig P B ls = (case merge_loop dig P B ls of (P', B') \<Rightarrow> flush P' B')"

subsection \<open>Floating-point arithmetic\<close>

text \<open>
  A Python float is modelled by the real number it denotes; infinities and NaN are outside
  the model. The arithmetic of the interpreter is a parameter of the model, the record
  \<open>float_arith\<close>:
  \<^item> \<open>rnd x\<close> is the double returned by a float operation whose exact result is \<open>x\<close>, so
    that \<open>a + b\<close>, \<open>a - b\<close>, \<open>a * b\<close> and \<open>a / b\<close> on floats are \<open>fadd\<close>, \<open>fsub\<close>,
    \<open>fmul\<close> and \<open>fdiv\<close> below;
  \<^item> \<open>fsum values\<close> is \<open>sum(values)\<close> on a list of floats, whose additions are ordered and
    compensated as the version of the interpreter has it;
  \<^item> \<open>sq x\<close> is \<open>x ** 2\<close>, which raises \<open>OverflowError\<close> when the result is out of range
    (the other float operations return infinities silently).

  Comparisons of floats, \<open>abs\<close> and the conversion \<open>int(x)\<close> are exact. The conversion of
  a list length or a page count to a float is exact below \<open>2 ^ 53\<close> and is written \<open>real\<close>.
\<close>

datatype py_error = ValueError | IndexError | KeyError | OverflowError

record float_arith =
  rnd :: "real \<Rightarrow> real"
  fsum :: "real list \<Rightarrow> real"
  sq :: "real \<Rightarrow> py_error + real"

definition fadd :: "float_arith \<Rightarrow> real \<Rightarrow> real \<Rightarrow> real" where
  "fadd F a b = rnd F (a + b)"

definition fsub :: "float_arith \<Rightarrow> real \<Rightarrow> real \<Rightarrow> real" where
  "fsub F a b = rnd F (a - b)"

definition fmul :: "float_arith \<Rightarrow> real \<Rightarrow> real \<Rightarrow> real" where
  "fmul F a b = rnd F (a * b)"

definition fdiv :: "float_arith \<Rightarrow> real \<Rightarrow> real \<Rightarrow> real" where
  "fdiv F a b = rnd F (a / b)"

text \<open>
  The float literals \<open>0.2\<close>, \<open>0.6\<close>, \<open>0.7\<close> and \<open>1.3\<close> of the source: the doubles nearest to
  these decimal fractions. The literal \<open>0.5\<close> is the real number \<open>1 / 2\<close>.
\<close>

definition float_0_2 :: real where
  "float_0_2 = 3602879701896397 / 2 ^ 54"

definition float_0_6 :: real where
  "float_0_6 = 5404319552844595 / 2 ^ 53"

definition float_0_7 :: real where
  "float_0_7 = 3152519739159347 / 2 ^ 52"

definition float_1_3 :: real where
  "float_1_3 = 5854679515581645 / 2 ^ 52"

text \<open>
  The least magnitude that rounds to an infinity: the largest finite double plus half the
  distance \<open>2 ^ 971\<close> between it and \<open>2 ^ 1024\<close>.
\<close>

definition float_overflow :: real where
  "float_overflow = 2 ^ 1024 - 2 ^ 970"

text \<open>
  The properties of binary64 arithmetic that the proofs rely on. Rounding is monotone and
  idempotent, and leaves a number \<open>m / 2 ^ k\<close> with \<open>\<bar>m\<bar> \<le> 2 ^ 53\<close> unchanged (such a number
  is a double). The sum of non-negative whole numbers is exact as long as it is at most
  \<open>2 ^ 53\<close>. The square of 0 is 0; the square of \<open>x\<close> with \<open>\<bar>x\<bar> \<le> 2 ^ 500\<close> does not
  overflow, is not negative, and is at least \<open>1 / 4\<close> when \<open>\<bar>x\<bar> \<ge> 1 / 2\<close>.
\<close>

definition ieee_double :: "float_arith \<Rightarrow> bool" where
  "ieee_double F =
     ((\<forall>x y. x \<le> y \<longrightarrow> rnd F x \<le> rnd F y)
      \<and> (\<forall>x. rnd F (rnd F x) = rnd F x)
      \<and> (\<forall>m k. \<bar>m\<bar> \<le> 2 ^ 53 \<and> k \<le> 1000 \<longrightarrow>
             rnd F (real_of_int m / 2 ^ k) = real_of_int m / 2 ^ k)
      \<and> (\<forall>vs. list_all (\<lambda>v. v \<in> \<int> \<and> 0 \<le> v) vs \<and> sum_list vs \<le> 2 ^ 53 \<longrightarrow>
             fsum F vs = sum_list vs)
      \<and> sq F 0 = Inr 0
      \<and> (\<forall>x. \<bar>x\<bar> \<le> 2 ^ 500 \<longrightarrow> (\<exists>y. sq F x = Inr y \<and> 0 \<le> y))
      \<and> (\<forall>x. 1 / 2 \<le> \<bar>x\<bar> \<and> \<bar>x\<bar> \<le> 2 ^ 500 \<longrightarrow> (\<exists>y. sq F x = Inr y \<and> 1 / 4 \<le> y)))"

text \<open>
  Arithmetic without rounding. It has the properties above, and it is the arithmetic of the
  interpreter on every example below, where all intermediate results are doubles or are
  only compared with a constant far away.
\<close>

definition exact_arith :: float_arith where
  "exact_arith = \<lparr>rnd = (\<lambda>x. x), fsum = sum_list,
             sq = (\<lambda>x. if x * x \<ge> float_overflow then Inl OverflowError else Inr (x * x))\<rparr>"

subsection \<open>detect_header_footer_lines\<close>

text \<open>
  A bounding box \<open>(x0, y0, x1, y1)\<close>. A line is the dictionary
  \<open>{"text": ..., "bbox": ...}\<close>, its \<open>bbox\<close> being \<open>None\<close> or a box.
\<close>

type_synonym bbox = "real \<times> real \<times> real \<times> real"

record line =
  line_text :: ustr
  line_bbox :: "bbox option"

text \<open>
  The sort key \<open>(l.get("bbox") or [0, 0, 0, 0])[1]\<close>.
\<close>

definition bbox_y0 :: "bbox option \<Rightarrow> real" where
  "bbox_y0 b = (case b of None \<Rightarrow> 0 | Some (x0, y0, x1, y1) \<Rightarrow> y0)"

text \<open>
  \<open>int(x)\<close> on a float truncates towards zero.
\<close>

definition py_int :: "real \<Rightarrow> int" where
  "py_int x = (if 0 \<le> x then \<lfloor>x\<rfloor> else \<lceil>x\<rceil>)"

text \<open>
  The slices \<open>xs[:n]\<close> and, for positive \<open>n\<close>, \<open>xs[-n:]\<close>.
\<close>

definition slice_to :: "int \<Rightarrow> 'a list \<Rightarrow> 'a list" where
  "slice_to n xs = (if 0 \<le> n then take (nat n) xs else take (nat (int (length xs) + n)) xs)"

definition slice_last :: "int \<Rightarrow> 'a list \<Rightarrow> 'a list" where
  "slice_last n xs = drop (length xs - nat n) xs"

text \<open>
  \<open>counts[text] = counts.get(text, 0) + 1\<close> on the dictionary \<open>counts\<close>, an association list
  in insertion order.
\<close>

definition bump :: "ustr \<Rightarrow> (ustr \<times> int) list \<Rightarrow> (ustr \<times> int) list" where
  "bump text counts =
     AList.update text ((case map_of counts text of None \<Rightarrow> 0 | Some c \<Rightarrow> c) + 1) counts"

text \<open>
  The header and footer candidates of one page: the body of the loop over
  \<open>pages_lines\<close> up to the inner loop.
\<close>

definition page_candidates :: "int \<Rightarrow> int \<Rightarrow> line list \<Rightarrow> line list" where
  "page_candidates header_max_lines footer_max_lines lines =
     (if lines = [] then []
      else
        let sorted_lines = sort_key (\<lambda>l. bbox_y0 (line_bbox l)) lines
        in if int (length sorted_lines) \<le> header_max_lines + footer_max_lines then []
           else slice_to header_max_lines sorted_lines
                @ (if footer_max_lines > 0 then slice_last footer_max_lines sorted_lines else []))"

text \<open>
  The inner loop over \<open>header_lines + footer_lines\<close>, and the outer loop over the pages.
\<close>

fun count_lines :: "(ustr \<times> int) list \<Rightarrow> line list \<Rightarrow> (ustr \<times> int) list" where
  "count_lines counts [] = counts"
| "count_lines counts (l # ls) =
     (let text = normalize_line (line_text l)
      in if text = [] then count_lines counts ls else count_lines (bump text counts) ls)"

fun count_pages :: "int \<Rightarrow> int \<Rightarrow> (ustr \<times> int) list \<Rightarrow> line list list \<Rightarrow> (ustr \<times> int) list" where
  "count_pages h f counts [] = counts"
| "count_pages h f counts (lines # pages) =
     count_pages h f (count_lines counts (page_candidates h f lines)) pages"

text \<open>
  The threshold \<open>max(2, int(total_pages * min_repetition_ratio + 0.5))\<close> is a float product
  and a float sum, each rounded, then truncated.
\<close>

definition detect_header_footer_lines ::
  "float_arith \<Rightarrow> line list list \<Rightarrow> int \<Rightarrow> int \<Rightarrow> real \<Rightarrow> ustr set" where
  "detect_header_footer_lines F pages_lines header_max_lines footer_max_lines min_repetition_ratio =
     (let total_pages = length pages_lines in
      if total_pages = 0 then {}
      else
        let counts = count_pages header_max_lines footer_max_lines [] pages_lines;
            threshold =
              max 2 (py_int (fadd F (fmul F (real total_pages) min_repetition_ratio) (1 / 2)))
        in if total_pages < 2 then {}
           else set (map fst (filter (\<lambda>(text, count). count \<ge> threshold) counts)))"

text \<open>
  The document-wide occurrence count of a normalized string: the number of candidate lines,
  over all pages, whose normalized text is the string (candidates whose normalized text is
  empty are not counted by the code).
\<close>

definition occurrences :: "line list list \<Rightarrow> int \<Rightarrow> int \<Rightarrow> ustr \<Rightarrow> nat" where
  "occurrences pages_lines h f t =
     count_list (filter (\<lambda>x. x \<noteq> [])
        (map (\<lambda>l. normalize_line (line_text l)) (concat (map (page_candidates h f) pages_lines)))) t"

text \<open>
  Example documents: three lines a page, at the top, in the body and at the bottom.
\<close>

definition mk_line :: "string \<Rightarrow> real \<Rightarrow> line" where
  "mk_line s y = \<lparr>line_text = py_str s, line_bbox = Some (72, y, 300, y + 12)\<rparr>"

definition four_pages :: "line list list" where
  "four_pages =
     [[mk_line ''Header'' 40, mk_line ''Body one.'' 100, mk_line ''Foot a'' 760],
      [mk_line ''Body two.'' 100, mk_line ''Header'' 40, mk_line ''Foot b'' 760],
      [mk_line ''Title c'' 40, mk_line ''Body three.'' 100, mk_line ''Foot c'' 760],
      [mk_line ''Title d'' 40, mk_line ''Body four.'' 100, mk_line ''Foot d'' 760]]"

text \<open>
  The value \<open>counts.get(t, 0)\<close>.
\<close>

definition cnt :: "(ustr \<times> int) list \<Rightarrow> ustr \<Rightarrow> int" where
  "cnt counts t = (case map_of counts t of None \<Rightarrow> 0 | Some c \<Rightarrow> c)"

text \<open>
  The threshold in the specification's words, \<open>max(2, round(total_pages * ratio + 0.5))\<close>, with
  rounding to the nearest integer.
\<close>

definition spec_threshold :: "float_arith \<Rightarrow> nat \<Rightarrow> real \<Rightarrow> int" where
  "spec_threshold F total_pages ratio =
     max 2 (round (fadd F (fmul F (real total_pages) ratio) (1 / 2)))"

definition three_pages :: "line list list" where
  "three_pages =
     [[mk_line ''Header'' 40, mk_line ''Body one.'' 100, mk_line ''Foot a'' 760],
      [mk_line ''Body two.'' 100, mk_line ''Header'' 40, mk_line ''Foot b'' 760],
      [mk_line ''Title c'' 40, mk_line ''Body three.'' 100, mk_line ''Foot c'' 760]]"

section \<open>layout.py\<close>

text \<open>
  The block dictionary \<open>{"bbox", "text", "avg_size", "type", "math_hint"}\<close> (an OCR block has
  no \<open>math_hint\<close> key and is read with the default \<open>False\<close>).
\<close>

datatype block_kind = TextBlock | OcrBlock

record block =
  block_bbox :: "bbox option"
  block_text :: ustr
  block_avg_size :: "real option"
  block_kind :: block_kind
  block_math_hint :: bool

text \<open>
  \<open>min(range(k), key=lambda i: abs(v - centroids[i]))\<close>: the first index of least distance.
  \<open>centroids\<close> has \<open>k\<close> elements wherever the source evaluates this.
\<close>

definition nearest :: "float_arith \<Rightarrow> nat \<Rightarrow> real list \<Rightarrow> real \<Rightarrow> nat" where
  "nearest F k centroids v = arg_min_list (\<lambda>i. \<bar>fsub F v (centroids ! i)\<bar>) [0..<k]"

text \<open>
  One iteration of the loop of \<open>_kmeans_1d\<close>: the clusters and their new centroids.
\<close>

definition kmeans_step :: "float_arith \<Rightarrow> nat \<Rightarrow> real list \<Rightarrow> real list \<Rightarrow> real list" where
  "kmeans_step F k values centroids =
     map (\<lambda>i. let cluster = filter (\<lambda>v. nearest F k centroids v = i) values
              in if cluster \<noteq> [] then fdiv F (fsum F cluster) (real (length cluster))
                 else centroids ! i) [0..<k]"

text \<open>
  The loop \<open>for _ in range(iterations)\<close> with its \<open>break\<close>.
\<close>

fun kmeans_loop :: "float_arith \<Rightarrow> nat \<Rightarrow> nat \<Rightarrow> real list \<Rightarrow> real list \<Rightarrow> real list" where
  "kmeans_loop F 0 k values centroids = centroids"
| "kmeans_loop F (Suc n) k values centroids =
     (let new_centroids = kmeans_step F k values centroids
      in if new_centroids = centroids then centroids
         else kmeans_loop F n k values new_centroids)"

text \<open>
  \<open>_kmeans_1d(values, k, iterations)\<close>. With \<open>k = 0\<close> and values present, \<open>min\<close> of the empty
  \<open>range(k)\<close> raises \<open>ValueError\<close>. The seed index \<open>int(i * (n - 1) / (k - 1))\<close> is the
  truncated quotient of two integers, which the float division followed by \<open>int\<close> yields as
  long as \<open>i * (n - 1) < 2 ^ 53\<close>; it is at most \<open>n - 1\<close> for \<open>i < k\<close>.
\<close>

definition kmeans_1d ::
  "float_arith \<Rightarrow> real list \<Rightarrow> nat \<Rightarrow> nat \<Rightarrow> py_error + (nat list \<times> real list)" where
  "kmeans_1d F values k iterations =
     (if values = [] then Inr ([], [])
      else if k = 1 then
        Inr (replicate (length values) 0, [fdiv F (fsum F values) (real (length values))])
      else if k = 0 then Inl ValueError
      else
        let sorted_vals = sort values;
            seeds = map (\<lambda>i. sorted_vals ! ((i * (length sorted_vals - 1)) div (k - 1))) [0..<k];
            centroids = kmeans_loop F iterations k values seeds
        in Inr (map (nearest F k centroids) values, centroids))"

text \<open>
  \<open>_inertia\<close>: the loop \<open>total += (v - centroids[idx]) ** 2\<close> over \<open>zip(values, assignments)\<close>.
\<close>

fun inertia_loop ::
  "float_arith \<Rightarrow> real \<Rightarrow> (real \<times> nat) list \<Rightarrow> real list \<Rightarrow> py_error + real" where
  "inertia_loop F tot [] centroids = Inr tot"
| "inertia_loop F tot ((v, idx) # rest) centroids =
     (if idx < length centroids then
        (case sq F (fsub F v (centroids ! idx)) of
           Inl e \<Rightarrow> Inl e
         | Inr s \<Rightarrow> inertia_loop F (fadd F tot s) rest centroids)
      else Inl IndexError)"

definition inertia :: "float_arith \<Rightarrow> real list \<Rightarrow> nat list \<Rightarrow> real list \<Rightarrow> py_error + real" where
  "inertia F values assignments centroids =
     (if values = [] then Inr 0 else inertia_loop F 0 (zip values assignments) centroids)"

text \<open>
  \<open>choose_column_count\<close>: the loop that collects the inertias for \<open>k = 1 .. max_k\<close>, and the
  loop that applies the elbow rule for \<open>k = 1 .. max_k - 1\<close> (the \<open>else\<close> branch is the \<open>break\<close>).
\<close>

fun collect_inertias :: "float_arith \<Rightarrow> real list \<Rightarrow> nat list \<Rightarrow> py_error + real list" where
  "collect_inertias F x0s [] = Inr []"
| "collect_inertias F x0s (k # ks) =
     (case kmeans_1d F x0s k 12 of
        Inl e \<Rightarrow> Inl e
      | Inr (assign, cent) \<Rightarrow>
          (case inertia F x0s assign cent of
             Inl e \<Rightarrow> Inl e
           | Inr v \<Rightarrow>
               (case collect_inertias F x0s ks of
                  Inl e \<Rightarrow> Inl e
                | Inr vs \<Rightarrow> Inr (v # vs))))"

fun choose_loop :: "float_arith \<Rightarrow> real list \<Rightarrow> nat \<Rightarrow> nat list \<Rightarrow> nat" where
  "choose_loop F inertias chosen [] = chosen"
| "choose_loop F inertias chosen (k # ks) =
     (let base = inertias ! (k - 1);
          next_val = inertias ! k;
          improvement = (if base > 0 then fdiv F (fsub F base next_val) base else 0)
      in if improvement \<ge> float_0_2 then choose_loop F inertias (k + 1) ks else chosen)"

definition choose_column_count :: "float_arith \<Rightarrow> real list \<Rightarrow> nat \<Rightarrow> py_error + nat" where
  "choose_column_count F x0s max_k =
     (if length x0s < 4 then Inr 1
      else
        (case collect_inertias F x0s [1..<max_k + 1] of
           Inl e \<Rightarrow> Inl e
         | Inr inertias \<Rightarrow> Inr (choose_loop F inertias 1 [1..<max_k])))"

text \<open>
  \<open>order_blocks\<close>. A block is a title block when it has a box and
  \<open>page_width > 0 and width / page_width >= 0.7\<close>, where \<open>width = x1 - x0\<close>.
\<close>

definition is_title :: "float_arith \<Rightarrow> real \<Rightarrow> block \<Rightarrow> bool" where
  "is_title F page_width b =
     (case block_bbox b of
        None \<Rightarrow> False
      | Some (x0, y0, x1, y1) \<Rightarrow>
          page_width > 0 \<and> fdiv F (fsub F x1 x0) page_width \<ge> float_0_7)"

definition bbox_x0 :: "bbox \<Rightarrow> real" where
  "bbox_x0 b = (case b of (x0, y0, x1, y1) \<Rightarrow> x0)"

text \<open>
  The loop that appends each regular block with a box to \<open>columns[assignments[idx]]\<close>;
  blocks without a box are skipped by its \<open>continue\<close>. The result pairs each block with
  its column.
\<close>

fun fill_columns :: "nat \<Rightarrow> block list \<Rightarrow> nat list \<Rightarrow> py_error + (nat \<times> block) list" where
  "fill_columns k [] assignments = Inr []"
| "fill_columns k (b # bs) [] = Inl IndexError"
| "fill_columns k (b # bs) (a # assignments) =
     (if a < k then
        (case fill_columns k bs assignments of
           Inl e \<Rightarrow> Inl e
         | Inr ps \<Rightarrow> Inr ((a, b) # ps))
      else Inl KeyError)"

definition order_blocks :: "float_arith \<Rightarrow> block list \<Rightarrow> real \<Rightarrow> py_error + block list" where
  "order_blocks F blocks page_width =
     (if blocks = [] then Inr []
      else
        let title_blocks = sort_key (\<lambda>b. bbox_y0 (block_bbox b)) (filter (is_title F page_width) blocks);
            regular_blocks = filter (\<lambda>b. \<not> is_title F page_width b) blocks;
            boxed = filter (\<lambda>b. block_bbox b \<noteq> None) regular_blocks;
            x0s = map (\<lambda>b. bbox_x0 (the (block_bbox b))) boxed
        in if x0s = [] then Inr (title_blocks @ regular_blocks)
           else
             (case choose_column_count F x0s 3 of
                Inl e \<Rightarrow> Inl e
              | Inr k \<Rightarrow>
                  (case kmeans_1d F x0s k 12 of
                     Inl e \<Rightarrow> Inl e
                   | Inr (assignments, centroids) \<Rightarrow>
                       (case fill_columns k boxed assignments of
                          Inl e \<Rightarrow> Inl e
                        | Inr placed \<Rightarrow>
                            if k \<le> length centroids then
                              let columns = map (\<lambda>i. (i, sort_key (\<lambda>b. bbox_y0 (block_bbox b))
                                               (map snd (filter (\<lambda>p. fst p = i) placed)))) [0..<k];
                                  ordered_columns = sort_key (\<lambda>item. centroids ! fst item) columns
                              in Inr (title_blocks @ concat (map snd ordered_columns))
                            else Inl IndexError))))"

text \<open>
  A text block with the given text and box, for the examples.
\<close>

definition mk_block :: "string \<Rightarrow> bbox option \<Rightarrow> block" where
  "mk_block s b = \<lparr>block_bbox = b, block_text = py_str s, block_avg_size = None,
                   block_kind = TextBlock, block_math_hint = False\<rparr>"









section \<open>Dehyphenation\<close>
















section \<open>Patterns, normalized lines and page numbers\<close>

lemma set_rx_class: "set (rx_class P s) = {cs. \<exists>c. s = c # cs \<and> P c}"
  by (cases s) (auto simp: rx_class_def)

lemma set_rx_seq: "set (rx_seq r1 r2 s) = (\<Union>x\<in>set (r1 s). set (r2 x))"
  by (simp add: rx_seq_def)

lemma set_rx_opt: "set (rx_opt r s) = insert s (set (r s))"
  by (simp add: rx_opt_def)

lemma takeWhile_all_prefix:
  "list_all P x \<Longrightarrow> length x \<le> length (takeWhile P (x @ y))"
  by (induction x) auto

lemma take_takeWhile_all:
  "n \<le> length (takeWhile P s) \<Longrightarrow> list_all P (take n s)"
proof (induction s arbitrary: n)
  case Nil
  then show ?case by simp
next
  case (Cons c cs)
  then show ?case by (cases n) (auto split: if_splits)
qed

lemma set_rx_rep:
  "set (rx_rep P lo hi s) =
     (\<lambda>n. drop n s) ` {lo..(case hi of None \<Rightarrow> length (takeWhile P s)
                                | Some h \<Rightarrow> min h (length (takeWhile P s)))}"
  by (simp add: rx_rep_def Let_def atLeastLessThanSuc_atLeastAtMost del: upt_Suc)

lemma rx_rep_lang:
  "s' \<in> set (rx_rep P lo hi s) \<longleftrightarrow>
     (\<exists>x. s = x @ s' \<and> list_all P x \<and> lo \<le> length x
          \<and> (case hi of None \<Rightarrow> True | Some h \<Rightarrow> length x \<le> h))"
proof
  assume "s' \<in> set (rx_rep P lo hi s)"
  then obtain n where n: "lo \<le> n" "n \<le> length (takeWhile P s)"
      "case hi of None \<Rightarrow> True | Some h \<Rightarrow> n \<le> h" and s': "s' = drop n s"
    unfolding set_rx_rep by (cases hi) auto
  have "n \<le> length s" using n(2) length_takeWhile_le [of P s] by linarith
  then have "s = take n s @ s'" "list_all P (take n s)" "length (take n s) = n"
    using n s' take_takeWhile_all [of n P s] by simp_all
  with n(1,3) show "\<exists>x. s = x @ s' \<and> list_all P x \<and> lo \<le> length x
          \<and> (case hi of None \<Rightarrow> True | Some h \<Rightarrow> length x \<le> h)"
    by (intro exI [of _ "take n s"]) (simp split: option.splits)
next
  assume "\<exists>x. s = x @ s' \<and> list_all P x \<and> lo \<le> length x
          \<and> (case hi of None \<Rightarrow> True | Some h \<Rightarrow> length x \<le> h)"
  then obtain x where x: "s = x @ s'" "list_all P x" "lo \<le> length x"
     "case hi of None \<Rightarrow> True | Some h \<Rightarrow> length x \<le> h" by blast
  then have "length x \<le> length (takeWhile P s)" using takeWhile_all_prefix by blast
  moreover have "s' = drop (length x) s" using x by simp
  ultimately show "s' \<in> set (rx_rep P lo hi s)"
    unfolding set_rx_rep using x(3,4) by (cases hi) (auto intro!: image_eqI [where x = "length x"])
qed

lemma fullmatch_short_number:
  "re_fullmatch (rx_short_number dig) t = (1 \<le> length t \<and> length t \<le> 4 \<and> list_all dig t)"
  by (auto simp: re_fullmatch_def rx_short_number_def rx_rep_lang)

lemma in_rx_class: "z \<in> set (rx_class P s) \<longleftrightarrow> (\<exists>c. s = c # z \<and> P c)"
  by (cases s) (auto simp: rx_class_def)

lemma in_rx_seq: "z \<in> set (rx_seq r1 r2 s) \<longleftrightarrow> (\<exists>x. x \<in> set (r1 s) \<and> z \<in> set (r2 x))"
  by (auto simp: rx_seq_def)

lemma in_rx_opt: "z \<in> set (rx_opt r s) \<longleftrightarrow> (z = s \<or> z \<in> set (r s))"
  by (auto simp: rx_opt_def)

lemma in_rx_plus:
  "z \<in> set (rx_plus P s) \<longleftrightarrow> (\<exists>x. s = x @ z \<and> list_all P x \<and> x \<noteq> [])"
  by (auto simp: rx_plus_def rx_rep_lang Suc_le_eq)

lemma in_rx_star:
  "z \<in> set (rx_star P s) \<longleftrightarrow> (\<exists>x. s = x @ z \<and> list_all P x)"
  by (auto simp: rx_star_def rx_rep_lang)

lemma rx_plus_Cons:
  "rx_plus P (c # cs) =
     (if P c then dropWhile P cs # map (\<lambda>n. drop n (c # cs)) (rev [1..<Suc (length (takeWhile P cs))])
      else [])"
proof (cases "P c")
  case True
  have "[1..<Suc (Suc (length (takeWhile P cs)))] = [1..<Suc (length (takeWhile P cs))] @ [Suc (length (takeWhile P cs))]"
    by simp
  then show ?thesis
    using True by (simp add: rx_plus_def rx_rep_def Let_def dropWhile_eq_drop del: upt_Suc)
next
  case False
  then show ?thesis by (simp add: rx_plus_def rx_rep_def Let_def)
qed

lemma re_sub_plus_Cons:
  "re_sub (rx_plus P) rep (c # cs) =
     (if P c then rep @ re_sub (rx_plus P) rep (dropWhile P cs)
      else c # re_sub (rx_plus P) rep cs)"
  by (simp add: rx_plus_Cons length_dropWhile_le)

lemma collapse_ws_Nil: "collapse_ws [] = []"
  by (simp add: collapse_ws_def)

lemma collapse_ws_Cons:
  "collapse_ws (c # cs) =
     (if py_isspace c then 32 # collapse_ws (dropWhile py_isspace cs) else c # collapse_ws cs)"
  unfolding collapse_ws_def by (subst re_sub_plus_Cons) simp

lemma isspace_32: "py_isspace 32"
  by (simp add: py_isspace_def)

lemma collapse_ws_hd:
  "collapse_ws t = [] \<or> (\<exists>d r. collapse_ws t = d # r \<and> (py_isspace d \<longleftrightarrow> py_isspace (hd t)))"
  by (cases t) (auto simp: collapse_ws_Nil collapse_ws_Cons isspace_32)

lemma dropWhile_hd_not: "dropWhile P xs = [] \<or> \<not> P (hd (dropWhile P xs))"
  using hd_dropWhile [of P xs] by blast

lemma ws_single_Cons_space:
  "ws_single r \<Longrightarrow> r = [] \<or> \<not> py_isspace (hd r) \<Longrightarrow> ws_single (32 # r)"
  by (cases r) auto

lemma ws_single_Cons_other:
  "ws_single r \<Longrightarrow> \<not> py_isspace c \<Longrightarrow> ws_single (c # r)"
  by (cases r) auto

lemma ws_single_collapse: "ws_single (collapse_ws s)"
proof (induction s rule: length_induct)
  case (1 s)
  show ?case
  proof (cases s)
    case Nil
    then show ?thesis by (simp add: collapse_ws_Nil)
  next
    case (Cons c cs)
    show ?thesis
    proof (cases "py_isspace c")
      case True
      let ?t = "dropWhile py_isspace cs"
      have "length ?t < length s" using Cons length_dropWhile_le [of py_isspace cs] by simp
      with 1 have ih: "ws_single (collapse_ws ?t)" by blast
      have "collapse_ws ?t = [] \<or> \<not> py_isspace (hd (collapse_ws ?t))"
      proof (cases "?t = []")
        case True
        then show ?thesis by (simp only: collapse_ws_Nil simp_thms)
      next
        case False
        with dropWhile_hd_not [of py_isspace cs] have "\<not> py_isspace (hd ?t)" by blast
        with collapse_ws_hd [of ?t] show ?thesis by auto
      qed
      with ih have "ws_single (32 # collapse_ws ?t)" by (rule ws_single_Cons_space)
      with True Cons show ?thesis by (simp add: collapse_ws_Cons)
    next
      case False
      from 1 Cons have "ws_single (collapse_ws cs)" by simp
      with False have "ws_single (c # collapse_ws cs)" by (rule ws_single_Cons_other [rotated])
      with False Cons show ?thesis by (simp add: collapse_ws_Cons)
    qed
  qed
qed

lemma ws_single_tl: "ws_single (c # r) \<Longrightarrow> ws_single r"
  by (cases r) auto

lemma ws_single_append: "ws_single (a @ b) \<Longrightarrow> ws_single a \<and> ws_single b"
proof (induction a rule: ws_single.induct)
  case 1
  then show ?case by simp
next
  case (2 c)
  then show ?case by (cases b) (auto split: if_splits)
next
  case (3 a b' r)
  then show ?case by (auto split: if_splits)
qed

lemma py_strip_decomp: "\<exists>a b. s = a @ py_strip s @ b"
proof -
  let ?m = "dropWhile py_isspace s"
  have 1: "s = takeWhile py_isspace s @ ?m" by simp
  have "rev (takeWhile py_isspace (rev ?m) @ dropWhile py_isspace (rev ?m)) = rev (rev ?m)"
    by (simp only: takeWhile_dropWhile_id)
  then have 2: "?m = py_strip s @ rev (takeWhile py_isspace (rev ?m))"
    by (simp only: rev_append rev_rev_ident py_strip_def)
  from 1 2 have "s = takeWhile py_isspace s @ py_strip s @ rev (takeWhile py_isspace (rev ?m))"
    by simp
  then show ?thesis by blast
qed

lemma ws_single_normalize_line: "ws_single (normalize_line s)"
proof -
  obtain a b where "collapse_ws s = a @ py_strip (collapse_ws s) @ b"
    using py_strip_decomp by blast
  with ws_single_collapse [of s] have "ws_single (a @ py_strip (collapse_ws s) @ b)" by simp
  then show ?thesis
    using ws_single_append unfolding normalize_line_def collapse_ws_def by blast
qed

lemma ws_single_run:
  "ws_single w \<Longrightarrow> list_all py_isspace w \<Longrightarrow> w = [] \<or> w = [32]"
  by (induction w rule: ws_single.induct) (auto split: if_splits)

lemma ws_single_mid:
  assumes "ws_single (a @ w @ b)" "list_all py_isspace w"
  shows "w = [] \<or> w = [32]"
proof -
  from assms(1) have "ws_single (w @ b)" using ws_single_append by blast
  then have "ws_single w" using ws_single_append by blast
  from this assms(2) show ?thesis by (rule ws_single_run)
qed

lemma in_seq_plus:
  "z \<in> set (rx_seq (rx_plus P) r s) \<longleftrightarrow>
     (\<exists>x y. s = x @ y \<and> x \<noteq> [] \<and> list_all P x \<and> z \<in> set (r y))"
  unfolding in_rx_seq in_rx_plus by blast

lemma in_seq_star:
  "z \<in> set (rx_seq (rx_star P) r s) \<longleftrightarrow>
     (\<exists>x y. s = x @ y \<and> list_all P x \<and> z \<in> set (r y))"
  unfolding in_rx_seq in_rx_star by blast

lemma in_seq_class:
  "z \<in> set (rx_seq (rx_class P) r s) \<longleftrightarrow> (\<exists>c y. s = c # y \<and> P c \<and> z \<in> set (r y))"
  unfolding in_rx_seq in_rx_class by blast

lemma tail_lang:
  "[] \<in> set (rx_seq (rx_star py_isspace) (rx_seq (rx_lit 47)
            (rx_seq (rx_star py_isspace) (rx_plus dig))) x) \<longleftrightarrow>
   (\<exists>w1 w2 m. x = w1 @ [47] @ w2 @ m \<and> list_all py_isspace w1 \<and> list_all py_isspace w2
       \<and> m \<noteq> [] \<and> list_all dig m)"
proof
  assume "[] \<in> set (rx_seq (rx_star py_isspace) (rx_seq (rx_lit 47)
            (rx_seq (rx_star py_isspace) (rx_plus dig))) x)"
  then obtain w1 w2 m where "x = w1 @ 47 # w2 @ m" "list_all py_isspace w1"
      "list_all py_isspace w2" "m \<noteq> []" "list_all dig m"
    unfolding rx_lit_def in_seq_star in_seq_class in_rx_plus by auto
  then show "\<exists>w1 w2 m. x = w1 @ [47] @ w2 @ m \<and> list_all py_isspace w1
       \<and> list_all py_isspace w2 \<and> m \<noteq> [] \<and> list_all dig m"
    by auto
next
  assume "\<exists>w1 w2 m. x = w1 @ [47] @ w2 @ m \<and> list_all py_isspace w1
       \<and> list_all py_isspace w2 \<and> m \<noteq> [] \<and> list_all dig m"
  then obtain w1 w2 m where x: "x = w1 @ 47 # w2 @ m" and w: "list_all py_isspace w1"
      "list_all py_isspace w2" "m \<noteq> []" "list_all dig m"
    by auto
  from w(3,4) have 1: "[] \<in> set (rx_plus dig m)"
    unfolding in_rx_plus by simp
  with w(2) have 2: "[] \<in> set (rx_seq (rx_star py_isspace) (rx_plus dig) (w2 @ m))"
    unfolding in_seq_star by blast
  then have 3: "[] \<in> set (rx_seq (rx_lit 47) (rx_seq (rx_star py_isspace) (rx_plus dig)) (47 # w2 @ m))"
    unfolding rx_lit_def in_seq_class by blast
  with w(1) show "[] \<in> set (rx_seq (rx_star py_isspace) (rx_seq (rx_lit 47)
            (rx_seq (rx_star py_isspace) (rx_plus dig))) x)"
    unfolding x in_seq_star [of _ _ "rx_seq (rx_lit 47) (rx_seq (rx_star py_isspace) (rx_plus dig))"] by blast
qed

lemma says_page_iff:
  "says_page p \<longleftrightarrow> (\<exists>c1 c2 c3 c4. p = [c1, c2, c3, c4]
      \<and> (c1 = 112 \<or> c1 + 32 = 112) \<and> (c2 = 97 \<or> c2 + 32 = 97)
      \<and> (c3 = 103 \<or> c3 + 32 = 103) \<and> (c4 = 101 \<or> c4 + 32 = 101))"
proof
  assume "says_page p"
  then have m: "map ascii_lower p = [112, 97, 103, 101]" by (simp add: says_page_def py_str_def)
  then obtain c1 c2 c3 c4 where p: "p = [c1, c2, c3, c4]"
    by (auto simp: map_eq_Cons_conv)
  with m have "ascii_lower c1 = 112" "ascii_lower c2 = 97" "ascii_lower c3 = 103" "ascii_lower c4 = 101"
    by simp_all
  then have "(c1 = 112 \<or> c1 + 32 = 112) \<and> (c2 = 97 \<or> c2 + 32 = 97)
      \<and> (c3 = 103 \<or> c3 + 32 = 103) \<and> (c4 = 101 \<or> c4 + 32 = 101)"
    by (auto simp: ascii_lower_def split: if_splits)
  with p show "\<exists>c1 c2 c3 c4. p = [c1, c2, c3, c4]
      \<and> (c1 = 112 \<or> c1 + 32 = 112) \<and> (c2 = 97 \<or> c2 + 32 = 97)
      \<and> (c3 = 103 \<or> c3 + 32 = 103) \<and> (c4 = 101 \<or> c4 + 32 = 101)" by blast
next
  assume "\<exists>c1 c2 c3 c4. p = [c1, c2, c3, c4]
      \<and> (c1 = 112 \<or> c1 + 32 = 112) \<and> (c2 = 97 \<or> c2 + 32 = 97)
      \<and> (c3 = 103 \<or> c3 + 32 = 103) \<and> (c4 = 101 \<or> c4 + 32 = 101)"
  then obtain c1 c2 c3 c4 where p: "p = [c1, c2, c3, c4]"
     and c: "c1 = 112 \<or> c1 + 32 = 112" "c2 = 97 \<or> c2 + 32 = 97"
      "c3 = 103 \<or> c3 + 32 = 103" "c4 = 101 \<or> c4 + 32 = 101" by blast
  from c have "ascii_lower c1 = 112" "ascii_lower c2 = 97" "ascii_lower c3 = 103" "ascii_lower c4 = 101"
    by (auto simp: ascii_lower_def)
  with p show "says_page p" by (simp add: says_page_def py_str_def)
qed

lemma head_lang:
  "z \<in> set (rx_seq (rx_ci 112) (rx_seq (rx_ci 97) (rx_seq (rx_ci 103) (rx_seq (rx_ci 101) r))) t)
    \<longleftrightarrow> (\<exists>p x. t = p @ x \<and> says_page p \<and> z \<in> set (r x))"
proof
  assume "z \<in> set (rx_seq (rx_ci 112) (rx_seq (rx_ci 97) (rx_seq (rx_ci 103) (rx_seq (rx_ci 101) r))) t)"
  then obtain c1 c2 c3 c4 x where "t = c1 # c2 # c3 # c4 # x"
     "c1 = 112 \<or> c1 + 32 = 112" "c2 = 97 \<or> c2 + 32 = 97"
     "c3 = 103 \<or> c3 + 32 = 103" "c4 = 101 \<or> c4 + 32 = 101" "z \<in> set (r x)"
    unfolding rx_ci_def in_seq_class by blast
  then have "t = [c1, c2, c3, c4] @ x \<and> says_page [c1, c2, c3, c4] \<and> z \<in> set (r x)"
    unfolding says_page_iff by simp
  then show "\<exists>p x. t = p @ x \<and> says_page p \<and> z \<in> set (r x)" by blast
next
  assume "\<exists>p x. t = p @ x \<and> says_page p \<and> z \<in> set (r x)"
  then obtain p x where t: "t = p @ x" and p: "says_page p" and z: "z \<in> set (r x)" by blast
  from p obtain c1 c2 c3 c4 where "p = [c1, c2, c3, c4]"
     "c1 = 112 \<or> c1 + 32 = 112" "c2 = 97 \<or> c2 + 32 = 97"
     "c3 = 103 \<or> c3 + 32 = 103" "c4 = 101 \<or> c4 + 32 = 101"
    unfolding says_page_iff by blast
  with t z show "z \<in> set (rx_seq (rx_ci 112) (rx_seq (rx_ci 97) (rx_seq (rx_ci 103) (rx_seq (rx_ci 101) r))) t)"
    unfolding rx_ci_def in_seq_class by simp
qed

lemma fullmatch_page_of:
  "re_fullmatch (rx_page_of dig) t \<longleftrightarrow>
     (\<exists>p w n tl. t = p @ w @ n @ tl \<and> says_page p \<and> w \<noteq> [] \<and> list_all py_isspace w
        \<and> n \<noteq> [] \<and> list_all dig n
        \<and> (tl = [] \<or> (\<exists>w1 w2 m. tl = w1 @ [47] @ w2 @ m \<and> list_all py_isspace w1
              \<and> list_all py_isspace w2 \<and> m \<noteq> [] \<and> list_all dig m)))"
  unfolding re_fullmatch_def rx_page_of_def head_lang in_seq_plus in_rx_opt tail_lang
  by blast

lemma page_lang_shape:
  assumes "ws_single t"
  shows "re_fullmatch (rx_page_of dig) t \<longleftrightarrow>
     ((\<exists>p n. t = p @ [32] @ n \<and> says_page p \<and> n \<noteq> [] \<and> list_all dig n)
      \<or> (\<exists>p n s1 s2 m. t = p @ [32] @ n @ s1 @ [47] @ s2 @ m \<and> says_page p
            \<and> n \<noteq> [] \<and> list_all dig n \<and> (s1 = [] \<or> s1 = [32]) \<and> (s2 = [] \<or> s2 = [32])
            \<and> m \<noteq> [] \<and> list_all dig m))"
    (is "?L \<longleftrightarrow> ?A \<or> ?B")
proof
  assume ?L
  then obtain p w n tl where t: "t = p @ w @ n @ tl" and p: "says_page p"
      and w: "w \<noteq> []" "list_all py_isspace w" and n: "n \<noteq> []" "list_all dig n"
      and tl: "tl = [] \<or> (\<exists>w1 w2 m. tl = w1 @ [47] @ w2 @ m \<and> list_all py_isspace w1
              \<and> list_all py_isspace w2 \<and> m \<noteq> [] \<and> list_all dig m)"
    unfolding fullmatch_page_of by blast
  from assms t have "ws_single (p @ w @ (n @ tl))" by simp
  from ws_single_mid [OF this w(2)] w(1) have w32: "w = [32]" by blast
  from tl show "?A \<or> ?B"
  proof
    assume "tl = []"
    with t p n w32 have ?A by auto
    then show ?thesis ..
  next
    assume "\<exists>w1 w2 m. tl = w1 @ [47] @ w2 @ m \<and> list_all py_isspace w1
              \<and> list_all py_isspace w2 \<and> m \<noteq> [] \<and> list_all dig m"
    then obtain w1 w2 m where tl': "tl = w1 @ [47] @ w2 @ m" and w1: "list_all py_isspace w1"
       and w2: "list_all py_isspace w2" and m: "m \<noteq> []" "list_all dig m" by blast
    from assms t tl' have "ws_single ((p @ w @ n) @ w1 @ ([47] @ w2 @ m))" by simp
    from ws_single_mid [OF this w1] have s1: "w1 = [] \<or> w1 = [32]" .
    from assms t tl' have "ws_single ((p @ w @ n @ w1 @ [47]) @ w2 @ m)" by simp
    from ws_single_mid [OF this w2] have s2: "w2 = [] \<or> w2 = [32]" .
    from t tl' w32 have "t = p @ [32] @ n @ w1 @ [47] @ w2 @ m" by simp
    with p n s1 s2 m have ?B by blast
    then show ?thesis ..
  qed
next
  assume "?A \<or> ?B"
  then show ?L
  proof
    assume ?A
    then obtain p n where "t = p @ [32] @ n @ []" "says_page p" "[32] \<noteq> []"
        "list_all py_isspace [32]" "n \<noteq> []" "list_all dig n"
      by (auto simp: isspace_32)
    then show ?L unfolding fullmatch_page_of by blast
  next
    assume ?B
    then obtain p n s1 s2 m where b: "t = p @ [32] @ n @ s1 @ [47] @ s2 @ m" "says_page p"
        "n \<noteq> []" "list_all dig n" "m \<noteq> []" "list_all dig m"
        and s: "s1 = [] \<or> s1 = [32]" "s2 = [] \<or> s2 = [32]"
      by blast
    from s have "list_all py_isspace s1" "list_all py_isspace s2"
      by (auto simp: isspace_32)
    moreover have "[32] \<noteq> ([]::ustr)" "list_all py_isspace [32]"
      by (simp_all add: isspace_32)
    moreover from b(1) have "t = p @ [32] @ n @ (s1 @ [47] @ s2 @ m)" by simp
    ultimately show ?L unfolding fullmatch_page_of using b(2-6) by blast
  qed
qed

lemma is_page_number_shape:
  "is_page_number dig s \<longleftrightarrow> page_number_shape dig (normalize_line s)"
proof -
  let ?t = "normalize_line s"
  have ws: "ws_single ?t" by (rule ws_single_normalize_line)
  have e1: "re_fullmatch (rx_short_number dig) ?t \<Longrightarrow> ?t \<noteq> []"
    unfolding fullmatch_short_number by auto
  have e2: "re_fullmatch (rx_page_of dig) ?t \<Longrightarrow> ?t \<noteq> []"
    unfolding fullmatch_page_of by auto
  have "is_page_number dig s \<longleftrightarrow>
          (re_fullmatch (rx_short_number dig) ?t \<or> re_fullmatch (rx_page_of dig) ?t)"
    using e1 e2 unfolding is_page_number_def Let_def by auto
  then show ?thesis
    unfolding page_number_shape_def page_lang_shape [OF ws] fullmatch_short_number by simp
qed

lemma collapse_ws_id: "ws_single t \<Longrightarrow> collapse_ws t = t"
proof (induction t rule: ws_single.induct)
  case 1
  show ?case by (simp add: collapse_ws_Nil)
next
  case (2 c)
  then show ?case by (auto simp: collapse_ws_Cons collapse_ws_Nil split: if_splits)
next
  case (3 a b r)
  then show ?case by (auto simp: collapse_ws_Cons split: if_splits)
qed

lemma py_strip_idem: "py_strip (py_strip u) = py_strip u"
proof -
  let ?m = "dropWhile py_isspace u"
  let ?x = "rev (dropWhile py_isspace (rev ?m))"
  have x: "py_strip u = ?x" by (simp add: py_strip_def)
  have m: "?m = ?x @ rev (takeWhile py_isspace (rev ?m))"
  proof -
    have "rev (takeWhile py_isspace (rev ?m) @ dropWhile py_isspace (rev ?m)) = rev (rev ?m)"
      by (simp only: takeWhile_dropWhile_id)
    then show ?thesis by (simp only: rev_append rev_rev_ident)
  qed
  have d: "dropWhile py_isspace ?x = ?x"
  proof (cases "?x = []")
    case True
    show ?thesis by (simp only: True dropWhile.simps)
  next
    case False
    then have "hd ?m = hd ?x" using m hd_append2 [of ?x] by metis
    moreover have "?m \<noteq> []"
    proof
      assume e: "?m = []"
      have "?x = []" unfolding e by simp
      with False show False by contradiction
    qed
    then have "\<not> py_isspace (hd ?m)" by (rule hd_dropWhile)
    ultimately show ?thesis using False by (simp add: dropWhile_eq_self_iff)
  qed
  have "py_strip ?x = rev (dropWhile py_isspace (rev ?x))"
    unfolding py_strip_def d ..
  also have "\<dots> = ?x" by simp
  finally show ?thesis unfolding x .
qed

lemma normalize_line_idem: "normalize_line (normalize_line s) = normalize_line s"
proof -
  have "collapse_ws (normalize_line s) = normalize_line s"
    by (rule collapse_ws_id) (rule ws_single_normalize_line)
  then have "normalize_line (normalize_line s) = py_strip (normalize_line s)"
    unfolding normalize_line_def collapse_ws_def by simp
  also have "\<dots> = normalize_line s"
    unfolding normalize_line_def by (rule py_strip_idem)
  finally show ?thesis .
qed

lemma normalize_line_no_ws:
  assumes "\<not> list_ex py_isspace t"
  shows "normalize_line t = t"
proof -
  from assms have w: "ws_single t"
    by (induction t rule: ws_single.induct) auto
  from assms have "t = [] \<or> (\<not> py_isspace (hd t) \<and> \<not> py_isspace (last t))"
    by (cases t) (auto simp: list_ex_iff)
  then have "dropWhile py_isspace t = t" "dropWhile py_isspace (rev t) = rev t"
    unfolding dropWhile_eq_self_iff by (auto simp: hd_rev)
  then have "py_strip t = t"
    unfolding py_strip_def by simp
  with collapse_ws_id [OF w] show ?thesis
    unfolding normalize_line_def collapse_ws_def by simp
qed

lemma says_page_hd: "says_page p \<Longrightarrow> \<exists>r. p = 112 # r \<or> p = 80 # r"
  unfolding says_page_iff by auto

lemma shape_starts:
  assumes "page_number_shape dig t" "\<not> (1 \<le> length t \<and> length t \<le> 4 \<and> list_all dig t)"
  shows "\<exists>r. t = 112 # r \<or> t = 80 # r"
proof -
  from assms obtain p x where "t = p @ x" "says_page p"
    unfolding page_number_shape_def by auto
  with says_page_hd [of p] show ?thesis by auto
qed

lemma long_number_not_page:
  assumes H: "\<forall>c. dig c \<longrightarrow> \<not> py_isspace c \<and> c \<noteq> 112 \<and> c \<noteq> 80"
    and len: "5 \<le> length t" and d: "list_all dig t"
  shows "\<not> is_page_number dig t"
proof
  assume pn: "is_page_number dig t"
  from H d have "\<not> list_ex py_isspace t" by (auto simp: list_all_iff list_ex_iff)
  then have "normalize_line t = t" by (rule normalize_line_no_ws)
  with pn have sh: "page_number_shape dig t" unfolding is_page_number_shape by simp
  from len have "\<not> (1 \<le> length t \<and> length t \<le> 4 \<and> list_all dig t)" by simp
  from shape_starts [OF sh this] obtain r where "t = 112 # r \<or> t = 80 # r" by blast
  with d have "dig 112 \<or> dig 80" by auto
  with H show False by blast
qed

lemma normalize_12_of_30: "normalize_line (py_str ''12 of 30'') = py_str ''12 of 30''"
  unfolding normalize_line_def collapse_ws_def [symmetric]
  by (simp add: collapse_ws_Cons collapse_ws_Nil py_str_def py_strip_def py_isspace_def)

lemma twelve_of_thirty: "\<not> is_page_number dig (py_str ''12 of 30'')"
proof
  assume "is_page_number dig (py_str ''12 of 30'')"
  then have sh: "page_number_shape dig (py_str ''12 of 30'')"
    unfolding is_page_number_shape normalize_12_of_30 .
  have "\<not> (1 \<le> length (py_str ''12 of 30'') \<and> length (py_str ''12 of 30'') \<le> 4
           \<and> list_all dig (py_str ''12 of 30''))"
    by (simp add: py_str_def)
  from shape_starts [OF sh this] show False by (simp add: py_str_def)
qed

text \<open>
  C10. A line is page-number-shaped exactly when its whitespace-normalized form is a
  decimal integer of one to four digits, or "page N" or "page N / M" in any letter case
  (the slash with or without a space on either side). The orchestrator tests
  \<open>is_page_number (normalize_line line)\<close>, which decides the same. A string of five or
  more digits is never page-number-shaped (digits being neither whitespace nor the letter
  p), and neither is "12 of 30".
\<close>

theorem page_number_lines:
  "(is_page_number dig s \<longleftrightarrow> page_number_shape dig (normalize_line s))
   \<and> (is_page_number dig (normalize_line s) \<longleftrightarrow> page_number_shape dig (normalize_line s))
   \<and> ((\<forall>c. dig c \<longrightarrow> \<not> py_isspace c \<and> c \<noteq> 112 \<and> c \<noteq> 80) \<and> 5 \<le> length t \<and> list_all dig t
        \<longrightarrow> \<not> is_page_number dig t)
   \<and> \<not> is_page_number dig (py_str ''12 of 30'')"
  using is_page_number_shape [of dig s] is_page_number_shape [of dig "normalize_line s"]
    normalize_line_idem [of s] long_number_not_page [of dig t] twelve_of_thirty [of dig]
  by simp

theorem page_number_lines_witness:
  "is_page_number ascii_digit (py_str ''Page 1/20'')
   \<and> page_number_shape ascii_digit (normalize_line (py_str ''Page 1/20''))
   \<and> \<not> (\<exists>c. ascii_digit c \<and> (py_isspace c \<or> c = 112 \<or> c = 80))
   \<and> 5 \<le> length (py_str ''12345'') \<and> list_all ascii_digit (py_str ''12345'')
   \<and> \<not> is_page_number ascii_digit (py_str ''12345'')"
proof -
  have a: "is_page_number ascii_digit (py_str ''Page 1/20'')"
    by (simp add: is_page_number_def normalize_line_def py_str_def py_strip_def py_isspace_def
        rx_plus_def rx_star_def rx_rep_def re_fullmatch_def rx_short_number_def rx_page_of_def
        rx_seq_def rx_ci_def rx_class_def rx_lit_def rx_opt_def ascii_digit_def Let_def)
  have h: "\<forall>c. ascii_digit c \<longrightarrow> \<not> py_isspace c \<and> c \<noteq> 112 \<and> c \<noteq> 80"
    by (auto simp: ascii_digit_def py_isspace_def)
  have l: "5 \<le> length (py_str ''12345'')" "list_all ascii_digit (py_str ''12345'')"
    by (simp_all add: py_str_def ascii_digit_def)
  from a h l
    page_number_lines [of ascii_digit "py_str ''Page 1/20''" "py_str ''12345''"]
  show ?thesis by blast
qed

section \<open>Paragraph merging\<close>

lemma py_strip_tight:
  assumes "py_strip l \<noteq> []"
  shows "tight (py_strip l)"
proof -
  let ?m = "dropWhile py_isspace l"
  let ?x = "rev (dropWhile py_isspace (rev ?m))"
  have x: "py_strip l = ?x" by (simp add: py_strip_def)
  with assms have ne: "?x \<noteq> []" by simp
  have m: "?m = ?x @ rev (takeWhile py_isspace (rev ?m))"
  proof -
    have "rev (takeWhile py_isspace (rev ?m) @ dropWhile py_isspace (rev ?m)) = rev (rev ?m)"
      by (simp only: takeWhile_dropWhile_id)
    then show ?thesis by (simp only: rev_append rev_rev_ident)
  qed
  have "hd ?m = hd ?x" using m ne hd_append2 [of ?x] by metis
  moreover have "?m \<noteq> []"
  proof
    assume e: "?m = []"
    have "?x = []" unfolding e by simp
    with ne show False by contradiction
  qed
  then have "\<not> py_isspace (hd ?m)" by (rule hd_dropWhile)
  ultimately have h: "\<not> py_isspace (hd ?x)" by simp
  from ne have "dropWhile py_isspace (rev ?m) \<noteq> []" by simp
  then have "\<not> py_isspace (hd (dropWhile py_isspace (rev ?m)))" by (rule hd_dropWhile)
  moreover have "last ?x = hd (dropWhile py_isspace (rev ?m))"
    using ne by (simp add: last_rev)
  ultimately have "\<not> py_isspace (last ?x)" by simp
  with h ne show ?thesis unfolding x tight_def by blast
qed

lemma py_strip_id: "tight b \<Longrightarrow> py_strip b = b"
proof -
  assume "tight b"
  then have "dropWhile py_isspace b = b" "dropWhile py_isspace (rev b) = rev b"
    unfolding dropWhile_eq_self_iff tight_def by (auto simp: hd_rev)
  then show ?thesis unfolding py_strip_def by simp
qed

lemma join_Cons: "\<exists>v. join sep (y # C) = y @ v"
  by (cases C) auto

lemma join_Cons_Cons: "join sep (x # z # zs) = x @ sep @ join sep (z # zs)"
  by simp

lemma join_mid: "\<exists>u v. join sep (A @ x # y # C) = u @ x @ sep @ y @ v"
proof (induction A)
  case Nil
  obtain v where "join sep (y # C) = y @ v" using join_Cons by blast
  then have "join sep ([] @ x # y # C) = [] @ x @ sep @ y @ v" by simp
  then show ?case by blast
next
  case (Cons a A)
  then obtain u v where uv: "join sep (A @ x # y # C) = u @ x @ sep @ y @ v" by blast
  obtain z zs where z: "A @ x # y # C = z # zs" by (cases "A @ x # y # C") auto
  have "join sep ((a # A) @ x # y # C) = a @ sep @ join sep (A @ x # y # C)"
    unfolding append_Cons z by (rule join_Cons_Cons)
  with uv have "join sep ((a # A) @ x # y # C) = (a @ sep @ u) @ x @ sep @ y @ v" by simp
  then show ?case by blast
qed

lemma join_tight: "bs \<noteq> [] \<Longrightarrow> list_all tight bs \<Longrightarrow> tight (join [32] bs)"
proof (induction bs)
  case Nil
  then show ?case by simp
next
  case (Cons x bs)
  show ?case
  proof (cases bs)
    case Nil
    with Cons.prems show ?thesis by simp
  next
    case (Cons y ys)
    with Cons.IH Cons.prems have t: "tight (join [32] (y # ys))" and x: "tight x" by simp_all
    from t have ne: "join [32] (y # ys) \<noteq> []" by (simp add: tight_def)
    have "join [32] (x # y # ys) = x @ [32] @ join [32] (y # ys)" by simp
    moreover from x have "hd (x @ [32] @ join [32] (y # ys)) = hd x" by (simp add: tight_def)
    moreover from ne have "last (x @ [32] @ join [32] (y # ys)) = last (join [32] (y # ys))" by simp
    ultimately show ?thesis using t x Cons unfolding tight_def by simp
  qed
qed

lemma merge_loop_append:
  "merge_loop dig P B (xs @ ys) =
     (case merge_loop dig P B xs of (P', B') \<Rightarrow> merge_loop dig P' B' ys)"
  by (induction xs arbitrary: P B) (simp_all add: Let_def)

lemma flush_prefix: "flush (Q @ P) B = Q @ flush P B"
  by (simp add: flush_def)

lemma merge_loop_prefix:
  "merge_loop dig (Q @ P) B ls =
     (Q @ fst (merge_loop dig P B ls), snd (merge_loop dig P B ls))"
  by (induction ls arbitrary: P B) (simp_all add: Let_def flush_prefix)

lemma merge_out_prefix: "merge_out dig (Q @ P) B ls = Q @ merge_out dig P B ls"
  unfolding merge_out_def merge_loop_prefix [of dig Q P B ls]
  by (simp add: flush_prefix split: prod.splits)

lemma merge_out_prefix0: "merge_out dig Q B ls = Q @ merge_out dig [] B ls"
  using merge_out_prefix [of dig Q "[]" B ls] by simp

lemma merge_lines_out:
  "merge_lines_into_paragraphs dig ls = filter (\<lambda>p. p \<noteq> []) (merge_out dig [] [] ls)"
  by (simp add: merge_lines_into_paragraphs_def merge_out_def split: prod.splits)

lemma merge_out_Nil: "merge_out dig P B [] = flush P B"
  by (simp add: merge_out_def)

lemma merge_out_Cons:
  "merge_out dig P B (line # lines) =
     (let stripped = py_strip line in
      if stripped = [] then merge_out dig (flush P B) [] lines
      else if is_list_item dig stripped
        then merge_out dig (flush P B @ [stripped]) [] lines
      else if B \<noteq> [] \<and> ends_sentence (last B)
        then merge_out dig (P @ [py_strip (join [32] B)]) [stripped] lines
      else merge_out dig P (B @ [stripped]) lines)"
  by (simp add: merge_out_def Let_def)

lemma merge_out_append:
  "merge_out dig P B (xs @ ys) =
     (case merge_loop dig P B xs of (P', B') \<Rightarrow> merge_out dig P' B' ys)"
  by (simp add: merge_out_def merge_loop_append split: prod.splits)

lemma merge_loop_tight:
  "list_all tight B \<Longrightarrow> list_all tight (snd (merge_loop dig P B ls))"
proof (induction ls arbitrary: P B)
  case Nil
  then show ?case by simp
next
  case (Cons l ls)
  show ?case
  proof (cases "py_strip l = []")
    case True
    with Cons.IH [of "[]"] show ?thesis by (simp add: Let_def)
  next
    case False
    then have t: "tight (py_strip l)" by (rule py_strip_tight)
    with Cons.prems have "list_all tight (B @ [py_strip l])" "list_all tight [py_strip l]"
      by simp_all
    with Cons.IH [of "[]"] Cons.IH [of "B @ [py_strip l]"] Cons.IH [of "[py_strip l]"] False
    show ?thesis by (simp add: Let_def)
  qed
qed

lemma merge_out_buffer:
  "B \<noteq> [] \<Longrightarrow> \<exists>E Q. list_all tight E \<and>
      merge_out dig P B ls = P @ py_strip (join [32] (B @ E)) # Q"
proof (induction ls arbitrary: P B)
  case Nil
  then have "merge_out dig P B [] = P @ py_strip (join [32] (B @ [])) # []"
    by (simp add: merge_out_Nil flush_def)
  moreover have "list_all tight []" by simp
  ultimately show ?case by blast
next
  case (Cons l ls)
  let ?s = "py_strip l"
  from Cons.prems have fl: "flush P B = P @ [py_strip (join [32] (B @ []))]"
    by (simp add: flush_def)
  show ?case
  proof (cases "?s = []")
    case True
    then have "merge_out dig P B (l # ls) = merge_out dig (flush P B) [] ls"
      by (simp add: merge_out_Cons)
    also have "\<dots> = P @ py_strip (join [32] (B @ [])) # merge_out dig [] [] ls"
      unfolding fl by (subst merge_out_prefix0) simp
    finally show ?thesis by (intro exI [of _ "[]"] exI conjI) simp_all
  next
    case ne: False
    show ?thesis
    proof (cases "is_list_item dig ?s")
      case True
      with ne have "merge_out dig P B (l # ls) = merge_out dig (flush P B @ [?s]) [] ls"
        by (simp add: merge_out_Cons)
      also have "\<dots> = P @ py_strip (join [32] (B @ [])) # ?s # merge_out dig [] [] ls"
        unfolding fl by (subst merge_out_prefix0) simp
      finally show ?thesis by (intro exI [of _ "[]"] exI conjI) simp_all
    next
      case li: False
      show ?thesis
      proof (cases "ends_sentence (last B)")
        case True
        with ne li Cons.prems
        have "merge_out dig P B (l # ls) = merge_out dig (P @ [py_strip (join [32] B)]) [?s] ls"
          by (simp add: merge_out_Cons)
        also have "\<dots> = P @ py_strip (join [32] (B @ [])) # merge_out dig [] [?s] ls"
          by (subst merge_out_prefix0) simp
        finally show ?thesis by (intro exI [of _ "[]"] exI conjI) simp_all
      next
        case False
        with ne li have e: "merge_out dig P B (l # ls) = merge_out dig P (B @ [?s]) ls"
          by (simp add: merge_out_Cons)
        have "B @ [?s] \<noteq> []" by simp
        from Cons.IH [OF this, of P] obtain E Q where E: "list_all tight E"
          and m: "merge_out dig P (B @ [?s]) ls = P @ py_strip (join [32] ((B @ [?s]) @ E)) # Q"
          by blast
        from ne have "tight ?s" by (rule py_strip_tight)
        with E have "list_all tight (?s # E)" by simp
        moreover from e m have "merge_out dig P B (l # ls) = P @ py_strip (join [32] (B @ ?s # E)) # Q"
          by simp
        ultimately show ?thesis by blast
      qed
    qed
  qed
qed

lemma is_list_item_Nil: "\<not> is_list_item dig []"
  by (simp add: is_list_item_def re_match_def rx_list_item_def rx_seq_def rx_alt_def
      rx_class_def rx_plus_def rx_rep_def rx_lit_def)

lemma list_item_standalone:
  assumes "is_list_item dig (py_strip l)"
  shows "merge_lines_into_paragraphs dig (pre @ l # post) =
           merge_lines_into_paragraphs dig pre @ py_strip l # merge_lines_into_paragraphs dig post"
proof -
  obtain P0 B0 where st: "merge_loop dig [] [] pre = (P0, B0)" by (cases "merge_loop dig [] [] pre")
  from assms is_list_item_Nil [of dig] have ne: "py_strip l \<noteq> []" by auto
  have "merge_out dig [] [] (pre @ l # post) = merge_out dig P0 B0 (l # post)"
    by (simp add: merge_out_append st)
  also have "\<dots> = merge_out dig (flush P0 B0 @ [py_strip l]) [] post"
    using assms ne by (simp add: merge_out_Cons)
  also have "\<dots> = (flush P0 B0 @ [py_strip l]) @ merge_out dig [] [] post"
    by (rule merge_out_prefix0)
  finally have "merge_out dig [] [] (pre @ l # post) =
      merge_out dig [] [] pre @ py_strip l # merge_out dig [] [] post"
    by (simp add: merge_out_def st)
  then show ?thesis using ne by (simp add: merge_lines_out)
qed

lemma prose_lines_joined:
  assumes n1: "py_strip l1 \<noteq> []" and n2: "py_strip l2 \<noteq> []"
    and i1: "\<not> is_list_item dig (py_strip l1)" and i2: "\<not> is_list_item dig (py_strip l2)"
    and e1: "\<not> ends_sentence (py_strip l1)"
  shows "\<exists>ps u v qs. merge_lines_into_paragraphs dig (pre @ l1 # l2 # post) =
           ps @ (u @ py_strip l1 @ [32] @ py_strip l2 @ v) # qs"
proof -
  let ?s1 = "py_strip l1" and ?s2 = "py_strip l2"
  obtain P0 B0 where st: "merge_loop dig [] [] pre = (P0, B0)" by (cases "merge_loop dig [] [] pre")
  have "list_all tight (snd (merge_loop dig [] [] pre))" by (rule merge_loop_tight) simp
  with st have tB0: "list_all tight B0" by simp
  have t1: "tight ?s1" and t2: "tight ?s2" using n1 n2 by (auto intro: py_strip_tight)
  have "\<exists>P1 B1. list_all tight B1 \<and>
          merge_out dig P0 B0 (l1 # l2 # post) = merge_out dig P1 (B1 @ [?s1]) (l2 # post)"
  proof (cases "B0 \<noteq> [] \<and> ends_sentence (last B0)")
    case True
    with n1 i1 have "merge_out dig P0 B0 (l1 # l2 # post) =
        merge_out dig (P0 @ [py_strip (join [32] B0)]) ([] @ [?s1]) (l2 # post)"
      by (subst merge_out_Cons) (simp add: Let_def)
    moreover have "list_all tight []" by simp
    ultimately show ?thesis by blast
  next
    case False
    with n1 i1 have "merge_out dig P0 B0 (l1 # l2 # post) =
        merge_out dig P0 (B0 @ [?s1]) (l2 # post)"
      by (subst merge_out_Cons) (auto simp: Let_def)
    with tB0 show ?thesis by blast
  qed
  then obtain P1 B1 where tB1: "list_all tight B1"
    and a: "merge_out dig P0 B0 (l1 # l2 # post) = merge_out dig P1 (B1 @ [?s1]) (l2 # post)"
    by blast
  have b: "merge_out dig P1 (B1 @ [?s1]) (l2 # post) = merge_out dig P1 ((B1 @ [?s1]) @ [?s2]) post"
    using n2 i2 e1 by (subst merge_out_Cons) (simp add: Let_def)
  have "(B1 @ [?s1]) @ [?s2] \<noteq> []" by simp
  from merge_out_buffer [OF this, of dig P1 post] obtain E Q where tE: "list_all tight E"
    and c: "merge_out dig P1 ((B1 @ [?s1]) @ [?s2]) post
              = P1 @ py_strip (join [32] (((B1 @ [?s1]) @ [?s2]) @ E)) # Q"
    by blast
  let ?buf = "B1 @ ?s1 # ?s2 # E"
  have tb: "list_all tight ?buf" using tB1 t1 t2 tE by simp
  have "?buf \<noteq> []" by simp
  from join_tight [OF this tb] have tj: "tight (join [32] ?buf)" .
  then have sj: "py_strip (join [32] ?buf) = join [32] ?buf" by (rule py_strip_id)
  obtain u v where uv: "join [32] ?buf = u @ ?s1 @ [32] @ ?s2 @ v"
    using join_mid [of "[32]" B1 ?s1 ?s2 E] by blast
  from tj have nej: "join [32] ?buf \<noteq> []" by (simp add: tight_def)
  have "merge_out dig [] [] (pre @ l1 # l2 # post) = merge_out dig P0 B0 (l1 # l2 # post)"
    by (simp add: merge_out_append st)
  also have "\<dots> = P1 @ join [32] ?buf # Q"
    using a b c sj by simp
  finally have "merge_lines_into_paragraphs dig (pre @ l1 # l2 # post) =
      filter (\<lambda>p. p \<noteq> []) P1 @ join [32] ?buf # filter (\<lambda>p. p \<noteq> []) Q"
    using nej by (simp add: merge_lines_out)
  then show ?thesis unfolding uv by blast
qed

lemma no_empty_paragraph: "[] \<notin> set (merge_lines_into_paragraphs dig ls)"
  by (simp add: merge_lines_out)

text \<open>
  C6. A line whose stripped text matches the list-item pattern closes the paragraph before
  it and stands as a paragraph of its own: the result is the paragraphs of the lines before
  it, the stripped line, and the paragraphs of the lines after it. Two consecutive lines
  that are neither blank nor list items, the first not ending in sentence-terminal
  punctuation, are never split: one paragraph of the result holds both, joined by a single
  space. No paragraph of the result is empty.
\<close>

theorem merge_lines_into_paragraphs_boundaries:
  "(is_list_item dig (py_strip l) \<longrightarrow>
      merge_lines_into_paragraphs dig (pre @ l # post) =
        merge_lines_into_paragraphs dig pre @ py_strip l # merge_lines_into_paragraphs dig post)
   \<and> (py_strip l1 \<noteq> [] \<and> py_strip l2 \<noteq> []
        \<and> \<not> is_list_item dig (py_strip l1) \<and> \<not> is_list_item dig (py_strip l2)
        \<and> \<not> ends_sentence (py_strip l1) \<longrightarrow>
      (\<exists>ps u v qs. merge_lines_into_paragraphs dig (pre' @ l1 # l2 # post') =
           ps @ (u @ py_strip l1 @ [32] @ py_strip l2 @ v) # qs))
   \<and> [] \<notin> set (merge_lines_into_paragraphs dig ls)"
  using list_item_standalone [of dig l pre post] prose_lines_joined [of l1 l2 dig pre' post']
    no_empty_paragraph [of dig ls]
  by blast

lemmas rx_eval = re_match_def re_search_def re_fullmatch_def rx_seq_def rx_alt_def rx_opt_def
  rx_class_def rx_plus_def rx_star_def rx_rep_def rx_lit_def rx_eos_def rx_ci_def Let_def

lemmas str_eval = py_str_def py_strip_def py_isspace_def rx_isspace_def ascii_letter_def
  ascii_alnum_def ascii_digit_def

lemma list_item_example: "is_list_item ascii_digit (py_strip (py_str ''- item''))"
  by (simp add: is_list_item_def rx_list_item_def bullet_def rx_eval str_eval)

lemma prose_example: "py_strip (py_str ''first line '') \<noteq> [] \<and> py_strip (py_str '' second line.'') \<noteq> []
        \<and> \<not> is_list_item ascii_digit (py_strip (py_str ''first line ''))
        \<and> \<not> is_list_item ascii_digit (py_strip (py_str '' second line.''))"
  by (simp add: is_list_item_def rx_list_item_def bullet_def rx_eval str_eval)

lemma no_stop_example: "\<not> ends_sentence (py_strip (py_str ''first line ''))"
  by (simp add: ends_sentence_def sentence_end_def rx_eval str_eval)

theorem merge_lines_into_paragraphs_boundaries_witness:
  "is_list_item ascii_digit (py_strip (py_str ''- item''))
   \<and> merge_lines_into_paragraphs ascii_digit ([py_str ''Intro text''] @ py_str ''- item'' # [py_str ''tail''])
       = merge_lines_into_paragraphs ascii_digit [py_str ''Intro text''] @ py_strip (py_str ''- item'')
           # merge_lines_into_paragraphs ascii_digit [py_str ''tail'']
   \<and> py_strip (py_str ''first line '') \<noteq> [] \<and> py_strip (py_str '' second line.'') \<noteq> []
   \<and> \<not> is_list_item ascii_digit (py_strip (py_str ''first line ''))
   \<and> \<not> is_list_item ascii_digit (py_strip (py_str '' second line.''))
   \<and> \<not> ends_sentence (py_strip (py_str ''first line ''))
   \<and> (\<exists>ps u v qs. merge_lines_into_paragraphs ascii_digit
           ([] @ py_str ''first line '' # py_str '' second line.'' # []) =
           ps @ (u @ py_strip (py_str ''first line '') @ [32] @ py_strip (py_str '' second line.'') @ v) # qs)"
  using list_item_example prose_example no_stop_example
    merge_lines_into_paragraphs_boundaries [of ascii_digit "py_str ''- item''" "[py_str ''Intro text'']"
      "[py_str ''tail'']" "py_str ''first line ''" "py_str '' second line.''" "[]" "[]" "[]"]
  by blast

section \<open>Floating-point arithmetic: consequences\<close>

lemma rnd_mono: "ieee_double F \<Longrightarrow> x \<le> y \<Longrightarrow> rnd F x \<le> rnd F y"
  unfolding ieee_double_def by blast


lemma rnd_dyadic:
  "ieee_double F \<Longrightarrow> \<bar>m\<bar> \<le> 2 ^ 53 \<Longrightarrow> k \<le> 1000 \<Longrightarrow>
     rnd F (real_of_int m / 2 ^ k) = real_of_int m / 2 ^ k"
  unfolding ieee_double_def by blast





lemma rnd_whole:
  assumes "ieee_double F" "x \<in> \<int>" "\<bar>x\<bar> \<le> 2 ^ 53"
  shows "rnd F x = x"
proof -
  from assms(2) obtain m where m: "x = real_of_int m" by (auto elim: Ints_cases)
  with assms(3) have "real_of_int \<bar>m\<bar> \<le> real_of_int (2 ^ 53)" by simp
  then have "\<bar>m\<bar> \<le> 2 ^ 53" by (simp only: of_int_le_iff)
  from rnd_dyadic [OF assms(1) this, of 0] show ?thesis by (simp add: m)
qed

lemma rnd_halves:
  assumes "ieee_double F" "\<bar>m\<bar> \<le> 2 ^ 53"
  shows "rnd F (real_of_int m / 2) = real_of_int m / 2"
  using rnd_dyadic [OF assms, of 1] by simp

lemma rnd_quarters:
  assumes "ieee_double F" "\<bar>m\<bar> \<le> 2 ^ 53"
  shows "rnd F (real_of_int m / 4) = real_of_int m / 4"
  using rnd_dyadic [OF assms, of 2] by simp

lemma rnd_le: "ieee_double F \<Longrightarrow> rnd F c = c \<Longrightarrow> x \<le> c \<Longrightarrow> rnd F x \<le> c"
  using rnd_mono [of F x c] by simp

lemma rnd_ge: "ieee_double F \<Longrightarrow> rnd F c = c \<Longrightarrow> c \<le> x \<Longrightarrow> c \<le> rnd F x"
  using rnd_mono [of F c x] by simp

lemma rnd_consts:
  assumes "ieee_double F"
  shows "rnd F 0 = 0" "rnd F 1 = 1" "rnd F 2 = 2" "rnd F 3 = 3" "rnd F 100 = 100"
    "rnd F 300 = 300" "rnd F 600 = 600" "rnd F (- 600) = - 600"
    "rnd F (1 / 2) = 1 / 2" "rnd F (- (1 / 2)) = - (1 / 2)" "rnd F (1 / 4) = 1 / 4"
    "rnd F (3 / 2) = 3 / 2" "rnd F (5 / 2) = 5 / 2"
proof -
  show "rnd F 0 = 0" "rnd F 1 = 1" "rnd F 2 = 2" "rnd F 3 = 3" "rnd F 100 = 100"
    "rnd F 300 = 300" "rnd F 600 = 600" "rnd F (- 600) = - 600"
    by (rule rnd_whole [OF assms]; simp)+
  show "rnd F (1 / 2) = 1 / 2" using rnd_halves [OF assms, of 1] by simp
  show "rnd F (- (1 / 2)) = - (1 / 2)" using rnd_halves [OF assms, of "- 1"] by simp
  show "rnd F (3 / 2) = 3 / 2" using rnd_halves [OF assms, of 3] by simp
  show "rnd F (5 / 2) = 5 / 2" using rnd_halves [OF assms, of 5] by simp
  show "rnd F (1 / 4) = 1 / 4" using rnd_quarters [OF assms, of 1] by simp
qed

lemma float_overflow_large: "(2::real) ^ 1000 < float_overflow"
proof -
  have a: "(2::real) ^ 1024 = 2 ^ 970 * 2 ^ 54" by (simp add: power_add [symmetric])
  have b: "(2::real) ^ 1000 = 2 ^ 970 * 2 ^ 30" by (simp add: power_add [symmetric])
  have "(2::real) ^ 30 < 2 ^ 54 - 1" by simp
  then have "(2::real) ^ 970 * 2 ^ 30 < 2 ^ 970 * (2 ^ 54 - 1)"
    by (intro mult_strict_left_mono) simp_all
  then show ?thesis unfolding float_overflow_def a b by (simp add: algebra_simps)
qed

lemma square_le:
  assumes "\<bar>x\<bar> \<le> (b::real)"
  shows "x * x \<le> b * b"
proof -
  have "x * x = \<bar>x\<bar> * \<bar>x\<bar>" by simp
  also have "\<dots> \<le> b * b" using assms by (intro mult_mono) simp_all
  finally show ?thesis .
qed

lemma square_ge:
  assumes "(a::real) \<le> \<bar>x\<bar>" "0 \<le> a"
  shows "a * a \<le> x * x"
proof -
  have "a * a \<le> \<bar>x\<bar> * \<bar>x\<bar>" using assms by (intro mult_mono) simp_all
  then show ?thesis by simp
qed

lemma sq_exact_small: "\<bar>x\<bar> \<le> 2 ^ 500 \<Longrightarrow> sq exact_arith x = Inr (x * x)"
proof -
  assume "\<bar>x\<bar> \<le> 2 ^ 500"
  from square_le [OF this] have "x * x \<le> 2 ^ 1000" by (simp add: power_add [symmetric])
  with float_overflow_large have "\<not> float_overflow \<le> x * x" by simp
  then show ?thesis by (simp add: exact_arith_def)
qed


lemma exact_simps:
  "rnd exact_arith x = x" "fsum exact_arith vs = sum_list vs"
  "fadd exact_arith a b = a + b" "fsub exact_arith a b = a - b"
  "fmul exact_arith a b = a * b" "fdiv exact_arith a b = a / b"
  by (simp_all add: exact_arith_def fadd_def fsub_def fmul_def fdiv_def)


lemma ieee_double_exact: "ieee_double exact_arith"
proof -
  have 1: "sq exact_arith 0 = Inr 0" using sq_exact_small [of 0] by simp
  have 2: "\<And>x. \<bar>x\<bar> \<le> 2 ^ 500 \<Longrightarrow> \<exists>y. sq exact_arith x = Inr y \<and> 0 \<le> y"
    using sq_exact_small by simp
  have 3: "\<And>x. 1 / 2 \<le> \<bar>x\<bar> \<Longrightarrow> \<bar>x\<bar> \<le> 2 ^ 500 \<Longrightarrow> \<exists>y. sq exact_arith x = Inr y \<and> 1 / 4 \<le> y"
  proof -
    fix x :: real assume a: "1 / 2 \<le> \<bar>x\<bar>" "\<bar>x\<bar> \<le> 2 ^ 500"
    from square_ge [OF a(1)] have "1 / 4 \<le> x * x" by simp
    with sq_exact_small [OF a(2)] show "\<exists>y. sq exact_arith x = Inr y \<and> 1 / 4 \<le> y" by simp
  qed
  show ?thesis
    unfolding ieee_double_def exact_simps using 1 2 3 by blast
qed

section \<open>Repeated header and footer lines\<close>

lemma cnt_bump: "cnt (bump x counts) t = cnt counts t + (if t = x then 1 else 0)"
  by (simp add: bump_def cnt_def update_conv')

lemma distinct_bump: "distinct (map fst counts) \<Longrightarrow> distinct (map fst (bump x counts))"
  by (simp add: bump_def distinct_update)

lemma cnt_count_lines:
  "cnt (count_lines counts ls) t =
     cnt counts t + int (count_list (filter (\<lambda>x. x \<noteq> []) (map (\<lambda>l. normalize_line (line_text l)) ls)) t)"
  by (induction ls arbitrary: counts) (auto simp: Let_def cnt_bump)

lemma distinct_count_lines:
  "distinct (map fst counts) \<Longrightarrow> distinct (map fst (count_lines counts ls))"
  by (induction ls arbitrary: counts) (auto simp: Let_def distinct_bump)

lemma count_list_append: "count_list (xs @ ys) t = count_list xs t + count_list ys t"
  by (induction xs) auto

lemma cnt_count_pages:
  "cnt (count_pages h f counts pages) t =
     cnt counts t + int (count_list (filter (\<lambda>x. x \<noteq> [])
        (map (\<lambda>l. normalize_line (line_text l)) (concat (map (page_candidates h f) pages)))) t)"
  by (induction pages arbitrary: counts) (auto simp: cnt_count_lines count_list_append)

lemma distinct_count_pages:
  "distinct (map fst counts) \<Longrightarrow> distinct (map fst (count_pages h f counts pages))"
  by (induction pages arbitrary: counts) (auto simp: distinct_count_lines)

lemma cnt_Nil: "cnt [] t = 0"
  by (simp add: cnt_def)

lemma cnt_final: "cnt (count_pages h f [] pages) t = int (occurrences pages h f t)"
  by (simp add: cnt_count_pages occurrences_def cnt_Nil)

lemma over_threshold:
  assumes "distinct (map fst counts)" "0 < th"
  shows "t \<in> set (map fst (filter (\<lambda>(text, count). count \<ge> th) counts)) \<longleftrightarrow> th \<le> cnt counts t"
proof
  assume "t \<in> set (map fst (filter (\<lambda>(text, count). count \<ge> th) counts))"
  then obtain c where "(t, c) \<in> set counts" "th \<le> c" by auto
  with assms(1) have "map_of counts t = Some c" by simp
  with \<open>th \<le> c\<close> show "th \<le> cnt counts t" by (simp add: cnt_def)
next
  assume a: "th \<le> cnt counts t"
  with assms(2) obtain c where c: "map_of counts t = Some c" "th \<le> c"
    by (cases "map_of counts t") (auto simp: cnt_def)
  then have "(t, c) \<in> set counts" by (simp add: map_of_SomeD)
  with c(2) show "t \<in> set (map fst (filter (\<lambda>(text, count). count \<ge> th) counts))"
    by force
qed

lemma detect_iff:
  "t \<in> detect_header_footer_lines F pages h f r \<longleftrightarrow>
     2 \<le> length pages
     \<and> max 2 (py_int (fadd F (fmul F (real (length pages)) r) (1 / 2)))
         \<le> int (occurrences pages h f t)"
proof (cases "2 \<le> length pages")
  case False
  then show ?thesis by (auto simp: detect_header_footer_lines_def Let_def)
next
  case True
  let ?th = "max 2 (py_int (fadd F (fmul F (real (length pages)) r) (1 / 2)))"
  have d: "distinct (map fst (count_pages h f [] pages))"
    by (rule distinct_count_pages) simp
  have "0 < ?th" by simp
  from over_threshold [OF d this, of t]
  have o: "t \<in> set (map fst (filter (\<lambda>(text, count). count \<ge> ?th) (count_pages h f [] pages)))
      \<longleftrightarrow> ?th \<le> int (occurrences pages h f t)"
    unfolding cnt_final .
  from True have "length pages \<noteq> 0" "\<not> length pages < 2" by auto
  then have "detect_header_footer_lines F pages h f r =
      set (map fst (filter (\<lambda>(text, count). count \<ge> ?th) (count_pages h f [] pages)))"
    by (simp only: detect_header_footer_lines_def Let_def if_False)
  with o True show ?thesis by (simp only: simp_thms)
qed

lemma three_pages_threshold:
  assumes F: "ieee_double F"
  shows "max 2 (py_int (fadd F (fmul F (real 3) float_0_6) (1 / 2))) = 2"
proof -
  let ?p = "rnd F (3 * float_0_6)"
  let ?q = "rnd F (?p + 1 / 2)"
  have b: "3 / 2 \<le> 3 * float_0_6" "3 * float_0_6 \<le> 2" by (simp_all add: float_0_6_def)
  from rnd_ge [OF F rnd_consts(12) [OF F] b(1)] rnd_le [OF F rnd_consts(3) [OF F] b(2)]
  have p: "3 / 2 \<le> ?p" "?p \<le> 2" by simp_all
  then have "2 \<le> ?p + 1 / 2" "?p + 1 / 2 \<le> 5 / 2" by simp_all
  from rnd_ge [OF F rnd_consts(3) [OF F] this(1)] rnd_le [OF F rnd_consts(13) [OF F] this(2)]
  have q: "2 \<le> ?q" "?q \<le> 5 / 2" by simp_all
  then have "\<lfloor>?q\<rfloor> = 2" by (simp add: floor_eq_iff)
  with q show ?thesis by (simp add: py_int_def fadd_def fmul_def)
qed

lemmas detect_eval = occurrences_def page_candidates_def slice_to_def slice_last_def
  mk_line_def bbox_y0_def normalize_line_def collapse_ws_def [symmetric] collapse_ws_Cons
  collapse_ws_Nil py_strip_def py_isspace_def py_str_def Let_def

lemma occurrences_four: "occurrences four_pages 1 1 (py_str ''Header'') = 2"
  by (simp add: four_pages_def detect_eval)

lemma occurrences_three: "occurrences three_pages 1 1 (py_str ''Header'') = 2"
  by (simp add: three_pages_def detect_eval)

lemma four_pages_value:
  "fadd exact_arith (fmul exact_arith (real (length four_pages)) float_0_6) (1 / 2)
     = 6530219459687219 / 2251799813685248"
  by (simp add: exact_simps four_pages_def float_0_6_def)

lemma four_pages_thresholds:
  "max 2 (py_int (fadd exact_arith (fmul exact_arith (real (length four_pages)) float_0_6) (1 / 2))) = 2"
  "spec_threshold exact_arith (length four_pages) float_0_6 = 3"
proof -
  have "\<lfloor>(6530219459687219::real) / 2251799813685248\<rfloor> = 2" by (simp add: floor_eq_iff)
  then show "max 2 (py_int (fadd exact_arith (fmul exact_arith (real (length four_pages)) float_0_6) (1 / 2))) = 2"
    unfolding four_pages_value by (simp add: py_int_def)
  have "round ((6530219459687219::real) / 2251799813685248) = 3"
    by (simp add: round_def floor_eq_iff)
  then show "spec_threshold exact_arith (length four_pages) float_0_6 = 3"
    unfolding spec_threshold_def four_pages_value by simp
qed

lemma four_pages_any_arithmetic:
  assumes F: "ieee_double F"
  shows "fadd F (fmul F (real (length four_pages)) float_0_6) (1 / 2)
     = 6530219459687219 / 2251799813685248"
proof -
  have a: "real (length four_pages) * float_0_6 = real_of_int 5404319552844595 / 2 ^ 51"
    by (simp add: four_pages_def float_0_6_def)
  have b: "real_of_int 5404319552844595 / 2 ^ 51 + 1 / 2 = real_of_int 6530219459687219 / 2 ^ 51"
    by simp
  have c: "rnd F (real_of_int 5404319552844595 / 2 ^ 51) = real_of_int 5404319552844595 / 2 ^ 51"
    by (rule rnd_dyadic [OF F]) simp_all
  have d: "rnd F (real_of_int 6530219459687219 / 2 ^ 51) = real_of_int 6530219459687219 / 2 ^ 51"
    by (rule rnd_dyadic [OF F]) simp_all
  show ?thesis unfolding fadd_def fmul_def a c b d by simp
qed

text \<open>
  C2 (amended). A string is in the repeated set exactly when the document has at least two
  pages and its occurrence count reaches \<open>max(2, int(x))\<close>, where \<open>x\<close> is the float that
  \<open>N * r + 0.5\<close> evaluates to (the product and the sum each rounded to a double) and \<open>int\<close>
  truncates: the threshold is \<open>N * r\<close> rounded half up, not \<open>N * r + 0.5\<close> rounded. A document
  with fewer than two pages has an empty repeated set, and with three pages and the ratio
  0.6 a string counted twice is repeated, whatever the rounding of binary64 arithmetic.
\<close>

theorem detect_header_footer_lines_threshold:
  "(t \<in> detect_header_footer_lines F pages h f r \<longleftrightarrow>
      2 \<le> length pages
      \<and> max 2 (py_int (fadd F (fmul F (real (length pages)) r) (1 / 2)))
          \<le> int (occurrences pages h f t))
   \<and> (length pages1 < 2 \<longrightarrow> detect_header_footer_lines F1 pages1 h1 f1 r1 = {})
   \<and> (ieee_double F3 \<and> length pages3 = 3 \<and> 2 \<le> occurrences pages3 h3 f3 t3 \<longrightarrow>
        t3 \<in> detect_header_footer_lines F3 pages3 h3 f3 float_0_6)"
proof (intro conjI impI)
  show "t \<in> detect_header_footer_lines F pages h f r \<longleftrightarrow>
      2 \<le> length pages
      \<and> max 2 (py_int (fadd F (fmul F (real (length pages)) r) (1 / 2)))
          \<le> int (occurrences pages h f t)"
    by (rule detect_iff)
next
  assume "length pages1 < 2"
  then have "\<And>x. x \<notin> detect_header_footer_lines F1 pages1 h1 f1 r1"
    unfolding detect_iff by simp
  then show "detect_header_footer_lines F1 pages1 h1 f1 r1 = {}" by blast
next
  assume a: "ieee_double F3 \<and> length pages3 = 3 \<and> 2 \<le> occurrences pages3 h3 f3 t3"
  then have "max 2 (py_int (fadd F3 (fmul F3 (real (length pages3)) float_0_6) (1 / 2))) = 2"
    using three_pages_threshold [of F3] by simp
  with a show "t3 \<in> detect_header_footer_lines F3 pages3 h3 f3 float_0_6"
    unfolding detect_iff by simp
qed

theorem detect_header_footer_lines_threshold_witness:
  "length ([] :: line list list) < 2
   \<and> detect_header_footer_lines exact_arith [] 3 3 float_0_6 = {}
   \<and> ieee_double exact_arith
   \<and> length three_pages = 3 \<and> 2 \<le> occurrences three_pages 1 1 (py_str ''Header'')
   \<and> py_str ''Header'' \<in> detect_header_footer_lines exact_arith three_pages 1 1 float_0_6"
proof -
  have a: "length three_pages = 3" by (simp add: three_pages_def)
  have b: "2 \<le> occurrences three_pages 1 1 (py_str ''Header'')"
    by (simp add: occurrences_three)
  have c: "length ([] :: line list list) < 2" by simp
  from a b c ieee_double_exact
    detect_header_footer_lines_threshold [of "py_str ''Header''" exact_arith three_pages 1 1
       float_0_6 "[]" exact_arith 3 3 float_0_6 exact_arith three_pages 1 1 "py_str ''Header''"]
  show ?thesis by blast
qed

text \<open>
  With four pages and the ratio 0.6 the float \<open>N * r + 0.5\<close> is
  \<open>6530219459687219 / 2 ^ 51\<close>, a little below 2.9, without any rounding (lemma
  \<open>four_pages_any_arithmetic\<close>). The code's threshold is \<open>int(2.9) = 2\<close> while
  \<open>round(2.9) = 3\<close>: a header on two of the four pages is repeated.
\<close>

theorem detect_threshold_not_rounded:
  "py_str ''Header'' \<in> detect_header_footer_lines exact_arith four_pages 1 1 float_0_6
   \<and> \<not> (2 \<le> length four_pages
          \<and> spec_threshold exact_arith (length four_pages) float_0_6
              \<le> int (occurrences four_pages 1 1 (py_str ''Header'')))"
proof -
  have "2 \<le> length four_pages" by (simp add: four_pages_def)
  then have "py_str ''Header'' \<in> detect_header_footer_lines exact_arith four_pages 1 1 float_0_6"
    unfolding detect_iff four_pages_thresholds occurrences_four by simp
  moreover have "\<not> spec_threshold exact_arith (length four_pages) float_0_6
              \<le> int (occurrences four_pages 1 1 (py_str ''Header''))"
    unfolding four_pages_thresholds occurrences_four by simp
  ultimately show ?thesis by blast
qed

section \<open>Reading order\<close>

lemma narrow_not_title:
  assumes F: "ieee_double F" and b: "block_bbox b = Some (x0, y0, x1, y1)" and w: "x1 - x0 \<le> 300"
  shows "\<not> is_title F 600 b"
proof -
  from rnd_le [OF F rnd_consts(6) [OF F] w] have "rnd F (x1 - x0) / 600 \<le> 1 / 2" by simp
  from rnd_le [OF F rnd_consts(9) [OF F] this]
  have "rnd F (rnd F (x1 - x0) / 600) \<le> 1 / 2" .
  moreover have "1 / 2 < float_0_7" by (simp add: float_0_7_def)
  ultimately show ?thesis by (simp add: is_title_def b fdiv_def fsub_def)
qed

lemma unboxed_not_title: "block_bbox b = None \<Longrightarrow> \<not> is_title F w b"
  by (simp add: is_title_def)

text \<open>
  C1. On a page with one block that has a box and one that has none, the result holds the
  first block only: the block without a box is lost, whatever the rounding of binary64
  arithmetic.
\<close>

theorem order_blocks_drops_unboxed:
  "ieee_double F \<longrightarrow>
     order_blocks F [mk_block ''a'' (Some (0, 0, 100, 10)), mk_block ''b'' None] 600
       = Inr [mk_block ''a'' (Some (0, 0, 100, 10))]"
proof
  assume F: "ieee_double F"
  have e: "block_bbox (mk_block ''a'' (Some (0, 0, 100, 10))) = Some (0, 0, 100, 10)"
    by (simp add: mk_block_def)
  from narrow_not_title [OF F e]
  have a: "\<not> is_title F 600 (mk_block ''a'' (Some (0, 0, 100, 10)))" by simp
  have b: "\<not> is_title F 600 (mk_block ''b'' None)"
    by (rule unboxed_not_title) (simp add: mk_block_def)
  have c: "block_bbox (mk_block ''b'' None) = None"
    by (simp add: mk_block_def)
  show "order_blocks F [mk_block ''a'' (Some (0, 0, 100, 10)), mk_block ''b'' None] 600
       = Inr [mk_block ''a'' (Some (0, 0, 100, 10))]"
    by (simp add: order_blocks_def Let_def a b c e choose_column_count_def kmeans_1d_def)
qed

theorem order_blocks_drops_unboxed_witness:
  "ieee_double exact_arith
   \<and> order_blocks exact_arith [mk_block ''a'' (Some (0, 0, 100, 10)), mk_block ''b'' None] 600
       = Inr [mk_block ''a'' (Some (0, 0, 100, 10))]"
  using order_blocks_drops_unboxed [of exact_arith] ieee_double_exact by simp

section \<open>Two-column pages\<close>





















































end
